theory Spec2Isabelle
  imports Complex_Main "HOL-Library.Word" "HOL-Library.Log_Nat"
begin

unbundle bit_operations_syntax

section \<open>Arctic Nord Dock: a shallow embedding of the C sources\<close>

text \<open>
  The development follows the C sources file by file: \<^verbatim>\<open>context_menu.c\<close> (colour
  formatting and the popup menu), \<^verbatim>\<open>color_box.c\<close> (the palette boxes and hit testing),
  \<^verbatim>\<open>dock.c\<close> (event dispatch and the clipboard) and \<^verbatim>\<open>main.c\<close> (the layout computed
  at startup). Global variables of the program are fields of one state record; requests
  sent to the X server are appended to a log kept in the state; replies of the X server
  are read from a record of functions that the model takes as a parameter.
\<close>

subsection \<open>C arithmetic\<close>

text \<open>
  \<^verbatim>\<open>uint32_t\<close> is \<^typ>\<open>32 word\<close>. A C \<^verbatim>\<open>int\<close> that holds a window coordinate is an
  \<^typ>\<open>int\<close>; C division truncates towards zero.
\<close>

type_synonym u32 = "32 word"

definition c_div :: "int \<Rightarrow> int \<Rightarrow> int" where
  "c_div a b = sgn a * sgn b * (\<bar>a\<bar> div \<bar>b\<bar>)"

text \<open>
  A C \<^verbatim>\<open>double\<close> is an IEEE 754 binary64 number. A finite double is modelled by the
  rational number it denotes, and every arithmetic operation is the exact operation
  followed by rounding to the nearest number with a 53-bit significand, ties to even
  (\<open>fl\<close>): the arithmetic of a C implementation that evaluates \<^verbatim>\<open>double\<close> expressions in
  double precision, in the default rounding mode and without fusing a multiplication with an
  addition. The exponent range is not bounded in the model: all doubles of the program are
  zero or have a magnitude between \<open>2\<^sup>-\<^sup>9\<close> and \<open>2\<^sup>3\<^sup>2\<close>, far from overflow and underflow,
  and no operation of the program yields an infinity or a NaN (the only divisions by a
  variable are guarded by \<^verbatim>\<open>delta != 0.0\<close>).
  \<open>expo x\<close> is the binary exponent of a positive \<open>x\<close>, that is \<open>2 powi expo x \<le> x < 2 powi (expo x + 1)\<close>
  (lemma \<open>expo_bounds\<close>).
\<close>

definition expo :: "rat \<Rightarrow> int" where
  "expo x = (if 1 \<le> x then bitlen \<lfloor>x\<rfloor> - 1 else - bitlen (\<lceil>1 / x\<rceil> - 1))"

definition round_half_even :: "rat \<Rightarrow> int" where
  "round_half_even q =
     (let n = \<lfloor>q\<rfloor>; r = q - of_int n
      in if r < 1 / 2 then n else if 1 / 2 < r then n + 1 else if even n then n else n + 1)"

definition fl :: "rat \<Rightarrow> rat" where
  "fl x = (if x = 0 then 0
           else let u = 2 powi (expo \<bar>x\<bar> - 52) in of_int (round_half_even (x / u)) * u)"

definition dadd :: "rat \<Rightarrow> rat \<Rightarrow> rat" where
  "dadd a b = fl (a + b)"

definition dsub :: "rat \<Rightarrow> rat \<Rightarrow> rat" where
  "dsub a b = fl (a - b)"

definition dmul :: "rat \<Rightarrow> rat \<Rightarrow> rat" where
  "dmul a b = fl (a * b)"

definition ddiv :: "rat \<Rightarrow> rat \<Rightarrow> rat" where
  "ddiv a b = fl (a / b)"

text \<open>The C library's \<^verbatim>\<open>round\<close>: to the nearest integer, halfway cases away from zero.\<close>

definition c_round :: "rat \<Rightarrow> int" where
  "c_round x = (if 0 \<le> x then \<lfloor>x + 1 / 2\<rfloor> else - \<lfloor>- x + 1 / 2\<rfloor>)"

subsection \<open>printf conversions\<close>

definition NUL :: char where
  "NUL = CHR 0x00"

fun dec :: "nat \<Rightarrow> string" where
  "dec n = (if n < 10 then [''0123456789'' ! n]
            else dec (n div 10) @ [''0123456789'' ! (n mod 10)])"

fun hex_lower :: "nat \<Rightarrow> string" where
  "hex_lower n = (if n < 16 then [''0123456789abcdef'' ! n]
                  else hex_lower (n div 16) @ [''0123456789abcdef'' ! (n mod 16)])"

fun hex_upper :: "nat \<Rightarrow> string" where
  "hex_upper n = (if n < 16 then [''0123456789ABCDEF'' ! n]
                  else hex_upper (n div 16) @ [''0123456789ABCDEF'' ! (n mod 16)])"

declare dec.simps [simp del] hex_lower.simps [simp del] hex_upper.simps [simp del]

text \<open>Minimum field width 2, padded with zeros (the \<^verbatim>\<open>02\<close> of \<^verbatim>\<open>%02X\<close>).\<close>

definition pad2 :: "string \<Rightarrow> string" where
  "pad2 s = replicate (2 - length s) (CHR ''0'') @ s"

text \<open>\<^verbatim>\<open>%u\<close>, \<^verbatim>\<open>%d\<close>, \<^verbatim>\<open>%02X\<close>, \<^verbatim>\<open>%02x\<close> and \<^verbatim>\<open>%.2f\<close>. The last one prints the decimal expansion
  of the double rounded to two fractional digits (ties to even on the exact value).\<close>

definition fmt_u :: "nat \<Rightarrow> string" where
  "fmt_u n = dec n"

definition fmt_d :: "int \<Rightarrow> string" where
  "fmt_d i = (if i < 0 then ''-'' @ dec (nat (- i)) else dec (nat i))"

definition fmt_02X :: "nat \<Rightarrow> string" where
  "fmt_02X n = pad2 (hex_upper n)"

definition fmt_02x :: "nat \<Rightarrow> string" where
  "fmt_02x n = pad2 (hex_lower n)"

definition fmt_2f :: "rat \<Rightarrow> string" where
  "fmt_2f v =
     (let n = nat (round_half_even (\<bar>v\<bar> * 100))
      in (if v < 0 then ''-'' else []) @ dec (n div 100) @ ''.'' @ pad2 (dec (n mod 100)))"

text \<open>\<^verbatim>\<open>snprintf(buf, buf_size, ...)\<close> stores at most \<^verbatim>\<open>buf_size - 1\<close> characters and a
  terminating NUL; the model returns the C string left in \<^verbatim>\<open>buf\<close>. (With \<^verbatim>\<open>buf_size = 0\<close>
  nothing is stored; the program always passes 64.)\<close>

definition snprintf :: "nat \<Rightarrow> string \<Rightarrow> string" where
  "snprintf buf_size s = take (buf_size - 1) s"

subsection \<open>context_menu.h, context_menu.c: formats\<close>

definition MENU_ITEM_HEIGHT :: int where "MENU_ITEM_HEIGHT = 20"
definition MENU_ITEM_PADDING :: int where "MENU_ITEM_PADDING = 5"
definition MENU_WIDTH :: int where "MENU_WIDTH = 80"
definition LIGHT_GREY :: u32 where "LIGHT_GREY = 0xCCCCCC"
definition DARK_GREY :: u32 where "DARK_GREY = 0x555555"

text \<open>The enumeration \<^verbatim>\<open>ColorFormat\<close>. A C enumeration is an integer type, and the program
  stores an \<^verbatim>\<open>int\<close> in it by a cast, so a format is an \<^typ>\<open>int\<close> here.\<close>

type_synonym ColorFormat = int

definition FORMAT_HTML_HEX :: ColorFormat where "FORMAT_HTML_HEX = 0"
definition FORMAT_RAW_HEX :: ColorFormat where "FORMAT_RAW_HEX = 1"
definition FORMAT_CSS_RGB :: ColorFormat where "FORMAT_CSS_RGB = 2"
definition FORMAT_CSS_RGBA :: ColorFormat where "FORMAT_CSS_RGBA = 3"
definition FORMAT_HSL :: ColorFormat where "FORMAT_HSL = 4"
definition FORMAT_FLOAT :: ColorFormat where "FORMAT_FLOAT = 5"
definition FORMAT_VEC3 :: ColorFormat where "FORMAT_VEC3 = 6"
definition FORMAT_VEC4 :: ColorFormat where "FORMAT_VEC4 = 7"
definition FORMAT_COUNT :: ColorFormat where "FORMAT_COUNT = 8"

definition menu_items :: "string list" where
  "menu_items = [''HTML HEX'', ''Raw HEX'', ''CSS RGB'', ''CSS RGBA'', ''HSL'', ''Float'',
                 ''Vec3'', ''Vec4'']"

text \<open>The three channels of a packed colour, and their normalised doubles.\<close>

definition chan_r :: "u32 \<Rightarrow> nat" where
  "chan_r color = unat (drop_bit 16 color AND 0xFF)"

definition chan_g :: "u32 \<Rightarrow> nat" where
  "chan_g color = unat (drop_bit 8 color AND 0xFF)"

definition chan_b :: "u32 \<Rightarrow> nat" where
  "chan_b color = unat (color AND 0xFF)"

definition norm255 :: "nat \<Rightarrow> rat" where
  "norm255 c = ddiv (of_nat c) 255"

text \<open>The body of the \<^verbatim>\<open>FORMAT_HSL\<close> case up to the call of \<^verbatim>\<open>snprintf\<close>: the three integers
  that are printed, \<^verbatim>\<open>(int)round(h)\<close>, \<^verbatim>\<open>(int)round(s * 100)\<close> and \<^verbatim>\<open>(int)round(l * 100)\<close>.
  \<^verbatim>\<open>fmax\<close> and \<^verbatim>\<open>fmin\<close> are exact. The conversions to \<^verbatim>\<open>int\<close> are those of integers between 0 and
  360 (lemma \<open>hsl_of_bounds\<close>), so they are exact as well.\<close>

definition hsl_of :: "rat \<Rightarrow> rat \<Rightarrow> rat \<Rightarrow> int \<times> int \<times> int" where
  "hsl_of r_norm g_norm b_norm =
     (let mx = max r_norm (max g_norm b_norm);
          mn = min r_norm (min g_norm b_norm);
          delta = dsub mx mn;
          l = ddiv (dadd mx mn) 2;
          s = (if delta \<noteq> 0
               then (if l < 1 / 2 then ddiv delta (dadd mx mn)
                     else ddiv delta (dsub (dsub 2 mx) mn))
               else 0);
          h = (if delta \<noteq> 0
               then (let h1 = (if mx = r_norm then ddiv (dsub g_norm b_norm) delta
                               else if mx = g_norm then dadd 2 (ddiv (dsub b_norm r_norm) delta)
                               else dadd 4 (ddiv (dsub r_norm g_norm) delta));
                         h2 = dmul h1 60
                     in if h2 < 0 then dadd h2 360 else h2)
               else 0)
      in (c_round h, c_round (dmul s 100), c_round (dmul l 100)))"

definition format_color :: "u32 \<Rightarrow> ColorFormat \<Rightarrow> nat \<Rightarrow> string" where
  "format_color color format buf_size =
     (let r = chan_r color; g = chan_g color; b = chan_b color;
          r_norm = norm255 r; g_norm = norm255 g; b_norm = norm255 b
      in if format = FORMAT_HTML_HEX then
           snprintf buf_size (''#'' @ fmt_02X r @ fmt_02X g @ fmt_02X b)
         else if format = FORMAT_RAW_HEX then
           snprintf buf_size (''0x'' @ fmt_02x r @ fmt_02x g @ fmt_02x b)
         else if format = FORMAT_CSS_RGB then
           snprintf buf_size (''rgb('' @ fmt_u r @ '', '' @ fmt_u g @ '', '' @ fmt_u b @ '');'')
         else if format = FORMAT_CSS_RGBA then
           snprintf buf_size
             (''rgba('' @ fmt_u r @ '', '' @ fmt_u g @ '', '' @ fmt_u b @ '', 1);'')
         else if format = FORMAT_HSL then
           (case hsl_of r_norm g_norm b_norm of (h, s, l) \<Rightarrow>
              snprintf buf_size
                (''hsl('' @ fmt_d h @ '', '' @ fmt_d s @ ''%, '' @ fmt_d l @ ''%);''))
         else if format = FORMAT_FLOAT then
           snprintf buf_size
             (fmt_2f r_norm @ ''f, '' @ fmt_2f g_norm @ ''f, '' @ fmt_2f b_norm @ ''f'')
         else if format = FORMAT_VEC3 then
           snprintf buf_size
             (''vec3('' @ fmt_2f r_norm @ ''f, '' @ fmt_2f g_norm @ ''f, '' @ fmt_2f b_norm
                @ ''f)'')
         else if format = FORMAT_VEC4 then
           snprintf buf_size
             (''vec4('' @ fmt_2f r_norm @ ''f, '' @ fmt_2f g_norm @ ''f, '' @ fmt_2f b_norm
                @ ''f, 1.00f)'')
         else [])"


subsection \<open>The X server as seen by the program\<close>

type_synonym window = nat
type_synonym atom = nat

definition XA_ATOM :: atom where "XA_ATOM = 4"
definition XA_STRING :: atom where "XA_STRING = 31"
definition None_atom :: atom where "None_atom = 0"
definition Button1 :: nat where "Button1 = 1"
definition Button3 :: nat where "Button3 = 3"

text \<open>\<^verbatim>\<open>XSelectionRequestEvent\<close> and the \<^verbatim>\<open>XSelectionEvent\<close> sent in reply.\<close>

record selection_request =
  req_owner :: window
  req_requestor :: window
  req_selection :: atom
  req_target :: atom
  req_property :: atom
  req_time :: nat

record selection_notify =
  requestor :: window
  selection :: atom
  target :: atom
  property :: atom
  time :: nat

text \<open>The events the program looks at; the first argument is the window of the event
  (\<^verbatim>\<open>ev.xany.window\<close>). Coordinates are the \<^verbatim>\<open>int\<close> fields \<^verbatim>\<open>x\<close> and \<^verbatim>\<open>y\<close> of the event.\<close>

datatype xevent =
    Expose window int
  | ButtonPress window nat int int
  | ButtonRelease window nat int int
  | MotionNotify window int int
  | LeaveNotify window
  | SelectionRequest selection_request
  | ClientMessage window int
  | OtherEvent window

fun event_window :: "xevent \<Rightarrow> window" where
  "event_window (Expose w _) = w"
| "event_window (ButtonPress w _ _ _) = w"
| "event_window (ButtonRelease w _ _ _) = w"
| "event_window (MotionNotify w _ _) = w"
| "event_window (LeaveNotify w) = w"
| "event_window (SelectionRequest rq) = req_owner rq"
| "event_window (ClientMessage w _) = w"
| "event_window (OtherEvent w) = w"

fun is_ButtonPress :: "xevent \<Rightarrow> bool" where
  "is_ButtonPress (ButtonPress _ _ _ _) = True"
| "is_ButtonPress _ = False"

text \<open>The requests the program sends. A fill or a text request carries the foreground
  pixel set by the preceding \<^verbatim>\<open>XSetForeground\<close>.\<close>

datatype prop_data = Bytes string | Atoms "atom list"

datatype xrequest =
    XClearArea window u32 u32 u32 u32
  | XFillRectangle window u32 u32 u32 u32 u32
  | XDrawString window u32 u32 u32 string
  | XCreateWindow window int int int int
  | XMapRaised window
  | XUnmapWindow window
  | XDestroyWindow window
  | XSetSelectionOwner atom window
  | XChangeProperty window atom atom nat prop_data
  | XSendEvent window selection_notify
  | XFlush
  | XFreeGC
  | XCloseDisplay

fun is_XSetSelectionOwner :: "xrequest \<Rightarrow> bool" where
  "is_XSetSelectionOwner (XSetSelectionOwner _ _) = True"
| "is_XSetSelectionOwner _ = False"

text \<open>The replies of the X server. A reply may depend on everything the program has
  requested so far, so the owner of a selection and the identifier of a new window are
  functions of the request log.\<close>

record xserver =
  DisplayWidth :: int
  DisplayHeight :: int
  BlackPixel :: u32
  WhitePixel :: u32
  XInternAtom :: "string \<Rightarrow> atom"
  XGetSelectionOwner :: "xrequest list \<Rightarrow> atom \<Rightarrow> window"
  XTranslateCoordinates :: "int \<Rightarrow> int \<Rightarrow> int \<times> int"
  created_window :: "xrequest list \<Rightarrow> window"
  XTextWidth :: "string \<Rightarrow> u32"
  font_height :: "u32 option"

subsection \<open>app_context.h, color_box.h, dock.h: constants and the program state\<close>

definition CLIPBOARD_BUFFER_SIZE :: nat where "CLIPBOARD_BUFFER_SIZE = 64"
definition PALETTE_LENGTH :: nat where "PALETTE_LENGTH = 16"
definition PADDING :: u32 where "PADDING = 5"
definition DOCK_HEIGHT_MARGIN :: rat where "DOCK_HEIGHT_MARGIN = fl (20 / 100)"
definition BACKGROUND :: u32 where "BACKGROUND = 0x000000"
definition nord6 :: u32 where "nord6 = 0xECEFF4"

definition palette_colors :: "u32 list" where
  "palette_colors = [0x2E3440, 0x3B4252, 0x434C5E, 0x4C566A, 0xD8DEE9, 0xE5E9F0, 0xECEFF4,
                     0x8FBCBB, 0x88C0D0, 0x81A1C1, 0x5E81AC, 0xBF616A, 0xD08770, 0xEBCB8B,
                     0xA3BE8C, 0xB48EAD]"

definition palette_labels :: "string list" where
  "palette_labels = [''nord0'', ''nord1'', ''nord2'', ''nord3'', ''nord4'', ''nord5'',
                     ''nord6'', ''nord7'', ''nord8'', ''nord9'', ''nord10'', ''nord11'',
                     ''nord12'', ''nord13'', ''nord14'', ''nord15'']"

record ColorBox =
  box_x :: u32
  box_y :: u32
  color :: u32
  label :: string
  is_clicked :: bool

text \<open>The global variables: the fields of \<^verbatim>\<open>app\<close> that the handlers read, the array
  \<^verbatim>\<open>color_boxes\<close>, the pointer \<^verbatim>\<open>last_clicked_box\<close> (an index into the array, \<open>None\<close> for
  the null pointer), \<^verbatim>\<open>current_format\<close>, the 64 bytes of \<^verbatim>\<open>clipboard_text\<close>, the atom
  \<^verbatim>\<open>wm_delete\<close>; then what the program has sent to the X server and to \<^verbatim>\<open>stderr\<close>, and
  whether it has called \<^verbatim>\<open>exit\<close>.\<close>

record dock =
  app_window :: window
  dock_width :: u32
  dock_height :: u32
  rect_size :: u32
  color_boxes :: "ColorBox list"
  last_clicked_box :: "nat option"
  current_format :: ColorFormat
  clipboard_text :: "char list"
  wm_delete :: atom
  xlog :: "xrequest list"
  stderr_log :: "string list"
  exited :: bool

definition request :: "xrequest list \<Rightarrow> dock \<Rightarrow> dock" where
  "request rs st = st\<lparr>xlog := xlog st @ rs\<rparr>"

subsection \<open>color_box.c\<close>

definition set_last_clicked_box :: "nat option \<Rightarrow> dock \<Rightarrow> dock" where
  "set_last_clicked_box box st = st\<lparr>last_clicked_box := box\<rparr>"

definition clear_last_clicked_box :: "dock \<Rightarrow> dock" where
  "clear_last_clicked_box st = st\<lparr>last_clicked_box := None\<rparr>"

definition get_last_clicked_box :: "dock \<Rightarrow> nat option" where
  "get_last_clicked_box st = last_clicked_box st"

definition get_text_metrics :: "xserver \<Rightarrow> string option \<Rightarrow> u32 \<times> u32" where
  "get_text_metrics xs text =
     (case text of
        None \<Rightarrow> (0, 0)
      | Some t \<Rightarrow> (case font_height xs of None \<Rightarrow> (0, 0) | Some h \<Rightarrow> (XTextWidth xs t, h)))"

definition draw_colorbox :: "xserver \<Rightarrow> nat option \<Rightarrow> dock \<Rightarrow> dock" where
  "draw_colorbox xs box st =
     (case box of
        None \<Rightarrow> st
      | Some i \<Rightarrow>
          (let bx = color_boxes st ! i;
               clicked = is_clicked bx;
               adjusted_rect_size = (if clicked then rect_size st - 5 else rect_size st);
               adjusted_x = (if clicked then box_x bx + 2 else box_x bx);
               adjusted_y = (if clicked then box_y bx + 2 else box_y bx);
               (label_width, label_height) = get_text_metrics xs (Some (label bx));
               label_rect_width = label_width + PADDING;
               label_rect_height0 = label_height + PADDING;
               label_rect_x = adjusted_x;
               label_rect_y0 = adjusted_y + adjusted_rect_size - label_rect_height0;
               label_rect_y = (if label_rect_y0 < adjusted_y then adjusted_y else label_rect_y0);
               label_rect_height =
                 (if label_rect_y0 < adjusted_y then adjusted_rect_size else label_rect_height0);
               text_x = label_rect_x + 2;
               text_y = label_rect_y + (label_rect_height + label_height) div 2
           in request
                [XClearArea (app_window st) (box_x bx) (box_y bx) (rect_size st) (rect_size st),
                 XFillRectangle (app_window st) (color bx) adjusted_x adjusted_y
                   adjusted_rect_size adjusted_rect_size,
                 XFillRectangle (app_window st) BACKGROUND label_rect_x label_rect_y
                   label_rect_width label_rect_height,
                 XDrawString (app_window st) nord6 text_x text_y (label bx)] st))"

definition draw_all_boxes :: "xserver \<Rightarrow> dock \<Rightarrow> dock" where
  "draw_all_boxes xs st = fold (\<lambda>i. draw_colorbox xs (Some i)) [0..<PALETTE_LENGTH] st"

definition is_point_inside_box :: "dock \<Rightarrow> u32 \<Rightarrow> u32 \<Rightarrow> nat option \<Rightarrow> bool" where
  "is_point_inside_box st px py box =
     (case box of
        None \<Rightarrow> False
      | Some i \<Rightarrow>
          (let bx = color_boxes st ! i
           in box_x bx \<le> px \<and> px \<le> box_x bx + rect_size st \<and>
              box_y bx \<le> py \<and> py \<le> box_y bx + rect_size st))"

text \<open>\<^verbatim>\<open>find_box\<close>: the loop over the indices \<open>0 .. PALETTE_LENGTH - 1\<close>, first hit wins.\<close>

fun find_box_from :: "dock \<Rightarrow> u32 \<Rightarrow> u32 \<Rightarrow> nat list \<Rightarrow> nat option" where
  "find_box_from st px py [] = None"
| "find_box_from st px py (i # is) =
     (if is_point_inside_box st px py (Some i) then Some i else find_box_from st px py is)"

definition find_box :: "dock \<Rightarrow> u32 \<Rightarrow> u32 \<Rightarrow> nat option" where
  "find_box st px py = find_box_from st px py [0..<PALETTE_LENGTH]"

definition colorbox_on_release :: "nat option \<Rightarrow> dock \<Rightarrow> dock" where
  "colorbox_on_release box st =
     (case box of
        None \<Rightarrow> st
      | Some i \<Rightarrow> st\<lparr>color_boxes := (color_boxes st)[i := (color_boxes st ! i)\<lparr>is_clicked := False\<rparr>]\<rparr>)"

definition initialize_color_boxes :: "dock \<Rightarrow> dock" where
  "initialize_color_boxes st =
     st\<lparr>color_boxes :=
          map (\<lambda>i. \<lparr>box_x = PADDING,
                    box_y = PADDING + of_nat i * (rect_size st + PADDING),
                    color = palette_colors ! i,
                    label = palette_labels ! i,
                    is_clicked = False\<rparr>) [0..<PALETTE_LENGTH]\<rparr>"

subsection \<open>dock.c: the clipboard\<close>

text \<open>\<^verbatim>\<open>strncpy(dst, src, n)\<close> on a destination array \<open>dst\<close> and a C string \<open>src\<close>: the first
  \<open>n\<close> bytes of the destination become the string, cut at \<open>n\<close> characters or filled up with
  NUL bytes. \<open>c_str\<close> reads the C string that starts an array of bytes.\<close>

definition strncpy :: "char list \<Rightarrow> string \<Rightarrow> nat \<Rightarrow> char list" where
  "strncpy dst src n = take n (takeWhile (\<lambda>c. c \<noteq> NUL) src @ replicate n NUL) @ drop n dst"

definition c_str :: "char list \<Rightarrow> string" where
  "c_str buf = takeWhile (\<lambda>c. c \<noteq> NUL) buf"

definition set_clipboard :: "xserver \<Rightarrow> string option \<Rightarrow> dock \<Rightarrow> dock" where
  "set_clipboard xs text st =
     (case text of
        None \<Rightarrow> st
      | Some t \<Rightarrow>
          (let st1 = st\<lparr>clipboard_text :=
                         (strncpy (clipboard_text st) t (CLIPBOARD_BUFFER_SIZE - 1))
                           [CLIPBOARD_BUFFER_SIZE - 1 := NUL]\<rparr>;
               clipboard = XInternAtom xs ''CLIPBOARD'';
               utf8_string = XInternAtom xs ''UTF8_STRING'';
               st2 = request [XSetSelectionOwner clipboard (app_window st1)] st1
           in if XGetSelectionOwner xs (xlog st2) clipboard \<noteq> app_window st2
              then st2\<lparr>stderr_log := stderr_log st2 @ [''Failed to set clipboard owner'' @ [CHR 0x0A]]\<rparr>
              else request
                     [XChangeProperty (app_window st2) utf8_string utf8_string 8
                        (Bytes (c_str (clipboard_text st2))),
                      XFlush] st2))"

text \<open>\<^verbatim>\<open>copy_color_from_box\<close> formats into a local array of \<^verbatim>\<open>CLIPBOARD_BUFFER_SIZE\<close> bytes
  and passes it on.\<close>

definition copy_color_from_box :: "xserver \<Rightarrow> nat option \<Rightarrow> dock \<Rightarrow> dock" where
  "copy_color_from_box xs box st =
     (case box of
        None \<Rightarrow> st
      | Some i \<Rightarrow>
          set_clipboard xs
            (Some (format_color (color (color_boxes st ! i)) (current_format st)
                     CLIPBOARD_BUFFER_SIZE)) st)"

definition supported_targets :: "xserver \<Rightarrow> atom list" where
  "supported_targets xs =
     [XInternAtom xs ''TARGETS'', XA_STRING, XInternAtom xs ''UTF8_STRING'',
      XInternAtom xs ''COMPOUND_TEXT'']"

definition handle_selection_request :: "xserver \<Rightarrow> selection_request \<Rightarrow> dock \<Rightarrow> dock" where
  "handle_selection_request xs req st =
     (let notify = \<lparr>requestor = req_requestor req, selection = req_selection req,
                     target = req_target req, property = req_property req,
                     time = req_time req\<rparr>;
          utf8_string = XInternAtom xs ''UTF8_STRING'';
          compound_text = XInternAtom xs ''COMPOUND_TEXT'';
          targets_atom = XInternAtom xs ''TARGETS''
      in if req_target req = targets_atom then
           request [XChangeProperty (req_requestor req) (req_property req) XA_ATOM 32
                      (Atoms (supported_targets xs)),
                    XSendEvent (req_requestor req) notify] st
         else if req_target req = XA_STRING \<or> req_target req = utf8_string \<or>
                 req_target req = compound_text then
           request [XChangeProperty (req_requestor req) (req_property req) (req_target req) 8
                      (Bytes (c_str (clipboard_text st))),
                    XSendEvent (req_requestor req) notify] st
         else
           request [XSendEvent (req_requestor req) (notify\<lparr>property := None_atom\<rparr>)] st)"

definition cleanup_dock :: "dock \<Rightarrow> dock" where
  "cleanup_dock st = request [XFreeGC, XDestroyWindow (app_window st), XCloseDisplay] st"


subsection \<open>context_menu.c: the popup menu\<close>

definition menu_height :: int where
  "menu_height = MENU_ITEM_HEIGHT * FORMAT_COUNT"

text \<open>\<^verbatim>\<open>draw_context_menu\<close>: the background, then one row per format; a row is highlighted
  when hovered, or else when it is the current format.\<close>

definition draw_menu_item :: "xserver \<Rightarrow> window \<Rightarrow> ColorFormat \<Rightarrow> int \<Rightarrow> nat \<Rightarrow> xrequest list" where
  "draw_menu_item xs menu_win fmt hover_item i =
     (let item_y = int i * MENU_ITEM_HEIGHT;
          text = XDrawString menu_win
                   (if int i = hover_item then BlackPixel xs else WhitePixel xs)
                   (word_of_int MENU_ITEM_PADDING)
                   (word_of_int (item_y + MENU_ITEM_HEIGHT - MENU_ITEM_PADDING))
                   (menu_items ! i)
      in if int i = hover_item then
           [XFillRectangle menu_win LIGHT_GREY 0 (word_of_int item_y) (word_of_int MENU_WIDTH)
              (word_of_int MENU_ITEM_HEIGHT), text]
         else if int i = fmt then
           [XFillRectangle menu_win DARK_GREY 0 (word_of_int item_y) (word_of_int MENU_WIDTH)
              (word_of_int MENU_ITEM_HEIGHT), text]
         else [text])"

definition draw_context_menu :: "xserver \<Rightarrow> window \<Rightarrow> ColorFormat \<Rightarrow> int \<Rightarrow> xrequest list" where
  "draw_context_menu xs menu_win fmt hover_item =
     XFillRectangle menu_win (BlackPixel xs) 0 0 (word_of_int MENU_WIDTH)
       (word_of_int (MENU_ITEM_HEIGHT * FORMAT_COUNT))
     # concat (map (draw_menu_item xs menu_win fmt hover_item) [0..<nat FORMAT_COUNT])"

text \<open>
  The loop \<^verbatim>\<open>while (!done)\<close> of \<^verbatim>\<open>context_menu_show\<close>. Each round takes the next event of
  the queue (\<^verbatim>\<open>XNextEvent\<close>); on an empty queue the program blocks, which is the result
  \<open>None\<close>. The loop returns \<^verbatim>\<open>selected_item\<close>, the requests sent and the rest of the queue.
  \<^verbatim>\<open>selected_item\<close> is \<open>-1\<close> until the round that also sets \<^verbatim>\<open>done\<close>.
\<close>

fun menu_loop ::
  "xserver \<Rightarrow> window \<Rightarrow> ColorFormat \<Rightarrow> int \<Rightarrow> xrequest list \<Rightarrow> xevent list \<Rightarrow>
   (int \<times> xrequest list \<times> xevent list) option" where
  "menu_loop xs menu_win fmt hover_item out [] = None"
| "menu_loop xs menu_win fmt hover_item out (ev # q) =
     (if event_window ev \<noteq> menu_win then
        (if is_ButtonPress ev then Some (- 1, out, q)
         else menu_loop xs menu_win fmt hover_item out q)
      else
        (case ev of
           Expose _ _ \<Rightarrow>
             menu_loop xs menu_win fmt hover_item
               (out @ draw_context_menu xs menu_win fmt hover_item) q
         | MotionNotify _ mx my \<Rightarrow>
             (let new_hover0 = c_div my MENU_ITEM_HEIGHT;
                  new_hover = (if new_hover0 < 0 \<or> new_hover0 \<ge> FORMAT_COUNT then - 1
                               else new_hover0)
              in if new_hover \<noteq> hover_item then
                   menu_loop xs menu_win fmt new_hover
                     (out @ draw_context_menu xs menu_win fmt new_hover) q
                 else menu_loop xs menu_win fmt hover_item out q)
         | LeaveNotify _ \<Rightarrow>
             (if hover_item \<noteq> - 1 then
                menu_loop xs menu_win fmt (- 1) (out @ draw_context_menu xs menu_win fmt (- 1)) q
              else menu_loop xs menu_win fmt hover_item out q)
         | ButtonPress _ button click_x click_y \<Rightarrow>
             (if click_y < 0 \<or> click_y > menu_height then Some (- 1, out, q)
              else Some (c_div click_y MENU_ITEM_HEIGHT, out, q))
         | _ \<Rightarrow> menu_loop xs menu_win fmt hover_item out q))"

text \<open>\<^verbatim>\<open>context_menu_show\<close>: place the window inside the screen, create and map it, draw,
  run the loop, destroy the window, return \<^verbatim>\<open>selected_item\<close>. The middle line of the
  placement is computed in \<^verbatim>\<open>uint32_t\<close> and cast to \<^verbatim>\<open>int\<close>.\<close>

definition context_menu_show ::
  "xserver \<Rightarrow> int \<Rightarrow> int \<Rightarrow> xevent list \<Rightarrow> dock \<Rightarrow> (int \<times> dock \<times> xevent list) option" where
  "context_menu_show xs x0 y0 q st =
     (let screen_width = DisplayWidth xs;
          x = (if x0 + MENU_WIDTH > screen_width
               then screen_width - MENU_WIDTH - sint (dock_width st) else x0);
          screen_height = DisplayHeight xs;
          middle = dock_height st + (word_of_int screen_height - dock_height st) div 2;
          y = (if y0 + menu_height > sint middle then sint (middle - word_of_int menu_height)
               else y0);
          menu_win = created_window xs (xlog st);
          st1 = request ([XCreateWindow menu_win x y MENU_WIDTH menu_height, XMapRaised menu_win,
                          XFlush]
                         @ draw_context_menu xs menu_win (current_format st) (- 1)) st
      in case menu_loop xs menu_win (current_format st) (- 1) [] q of
           None \<Rightarrow> None
         | Some (selected_item, out, q') \<Rightarrow>
             Some (selected_item,
                   request (out @ [XUnmapWindow menu_win, XDestroyWindow menu_win]) st1, q'))"

subsection \<open>dock.c: event dispatch\<close>

text \<open>
  \<^verbatim>\<open>handle_event\<close> gets the event and the events still queued behind it, because a right
  click runs the menu's own loop on that queue. The result is the new state and the queue
  left over, or \<open>None\<close> when the menu loop blocks on an empty queue. The event coordinates
  are converted from \<^verbatim>\<open>int\<close> to \<^verbatim>\<open>uint32_t\<close> at the calls of \<^verbatim>\<open>find_box\<close>.
\<close>

definition handle_event ::
  "xserver \<Rightarrow> xevent \<Rightarrow> xevent list \<Rightarrow> dock \<Rightarrow> (dock \<times> xevent list) option" where
  "handle_event xs event q st =
     (case event of
        Expose _ count \<Rightarrow> Some (if count = 0 then draw_all_boxes xs st else st, q)
      | ButtonPress _ button ex ey \<Rightarrow>
          (if button = Button1 then
             (case find_box st (word_of_int ex) (word_of_int ey) of
                None \<Rightarrow> Some (st, q)
              | Some i \<Rightarrow>
                  (let st1 = copy_color_from_box xs (Some i) st;
                       st2 = st1\<lparr>color_boxes :=
                                   (color_boxes st1)[i := (color_boxes st1 ! i)\<lparr>is_clicked := True\<rparr>]\<rparr>;
                       st3 = draw_colorbox xs (Some i) st2
                   in Some (set_last_clicked_box (Some i) st3, q)))
           else if button = Button3 then
             (case find_box st (word_of_int ex) (word_of_int ey) of
                None \<Rightarrow> Some (st, q)
              | Some i \<Rightarrow>
                  (case XTranslateCoordinates xs ex ey of (root_x, root_y) \<Rightarrow>
                     (case context_menu_show xs root_x root_y q st of
                        None \<Rightarrow> None
                      | Some (chosen_format, st1, q') \<Rightarrow>
                          (if chosen_format \<ge> 0 then
                             Some (copy_color_from_box xs (Some i)
                                     (st1\<lparr>current_format := chosen_format\<rparr>), q')
                           else Some (st1, q')))))
           else Some (st, q))
      | ButtonRelease _ button ex ey \<Rightarrow>
          (let box = find_box st (word_of_int ex) (word_of_int ey)
           in if box \<noteq> None \<and> get_last_clicked_box st = box then
                Some (clear_last_clicked_box (draw_colorbox xs box (colorbox_on_release box st)), q)
              else Some (st, q))
      | MotionNotify _ ex ey \<Rightarrow>
          (let box = find_box st (word_of_int ex) (word_of_int ey)
           in if get_last_clicked_box st \<noteq> None \<and> get_last_clicked_box st \<noteq> box then
                Some (clear_last_clicked_box
                        (draw_colorbox xs (get_last_clicked_box st)
                           (colorbox_on_release (get_last_clicked_box st) st)), q)
              else Some (st, q))
      | SelectionRequest req \<Rightarrow> Some (handle_selection_request xs req st, q)
      | ClientMessage _ data0 \<Rightarrow>
          (if data0 = int (wm_delete st) then Some ((cleanup_dock st)\<lparr>exited := True\<rparr>, q)
           else Some (st, q))
      | _ \<Rightarrow> Some (st, q))"

subsection \<open>main.c\<close>

text \<open>The layout computed from the height of the display: \<^verbatim>\<open>display_height\<close> is converted
  to \<^verbatim>\<open>double\<close>, the quotient is converted back to \<^verbatim>\<open>uint32_t\<close> (which truncates).\<close>

definition main_rect_size :: "u32 \<Rightarrow> u32" where
  "main_rect_size display_height =
     word_of_int
       \<lfloor>ddiv (dsub (of_nat (unat display_height))
                    (dmul DOCK_HEIGHT_MARGIN (of_nat (unat display_height))))
              (of_nat PALETTE_LENGTH)\<rfloor>"

definition main_dock_width :: "u32 \<Rightarrow> u32" where
  "main_dock_width rs = 2 * PADDING + rs"

definition main_dock_height :: "u32 \<Rightarrow> u32" where
  "main_dock_height rs = of_nat PALETTE_LENGTH * (rs + PADDING) + PADDING"

text \<open>The state when \<^verbatim>\<open>main\<close> enters its event loop, after \<^verbatim>\<open>initialize_dock\<close> has created
  the window \<open>win\<close> and \<^verbatim>\<open>initialize_color_boxes\<close> has run. The static array
  \<^verbatim>\<open>clipboard_text\<close> starts as 64 zero bytes.\<close>

definition main_init :: "xserver \<Rightarrow> window \<Rightarrow> dock" where
  "main_init xs win =
     (let rs = main_rect_size (word_of_int (DisplayHeight xs))
      in initialize_color_boxes
           \<lparr>app_window = win,
            dock_width = main_dock_width rs,
            dock_height = main_dock_height rs,
            rect_size = rs,
            color_boxes = [],
            last_clicked_box = None,
            current_format = FORMAT_HTML_HEX,
            clipboard_text = replicate CLIPBOARD_BUFFER_SIZE NUL,
            wm_delete = XInternAtom xs ''WM_DELETE_WINDOW'',
            xlog = [],
            stderr_log = [],
            exited = False\<rparr>)"

text \<open>The loop of \<^verbatim>\<open>main\<close>: \<^verbatim>\<open>XNextEvent\<close>, \<^verbatim>\<open>handle_event\<close>, until \<^verbatim>\<open>exit\<close>. The result is the
  state reached when the queue is used up, also when that happens inside the menu loop
  (the menu changes nothing of the state before it returns).\<close>

fun main_loop :: "xserver \<Rightarrow> nat \<Rightarrow> dock \<Rightarrow> xevent list \<Rightarrow> dock" where
  "main_loop xs 0 st q = st"
| "main_loop xs (Suc n) st [] = st"
| "main_loop xs (Suc n) st (event # q) =
     (if exited st then st
      else case handle_event xs event q st of
             None \<Rightarrow> st
           | Some (st', q') \<Rightarrow> main_loop xs n st' q')"

definition run :: "xserver \<Rightarrow> dock \<Rightarrow> xevent list \<Rightarrow> dock" where
  "run xs st q = main_loop xs (length q) st q"


subsection \<open>A concrete X server and concrete states\<close>

text \<open>A display of 1920 by 1000 pixels that grants every selection to the window that asked
  for it last. The dock is the window 7; with this display the boxes are 50 pixels wide, box
  \<open>i\<close> has its corner at \<open>(5, 5 + 55 * i)\<close>.\<close>

fun last_owner :: "xrequest list \<Rightarrow> atom \<Rightarrow> window" where
  "last_owner [] a = 0"
| "last_owner (XSetSelectionOwner b w # rs) a =
     (let later = last_owner rs a in if later = 0 \<and> a = b then w else later)"
| "last_owner (_ # rs) a = last_owner rs a"

definition demo_atom :: "string \<Rightarrow> atom" where
  "demo_atom name =
     (if name = ''CLIPBOARD'' then 300 else if name = ''UTF8_STRING'' then 301
      else if name = ''COMPOUND_TEXT'' then 302 else if name = ''TARGETS'' then 303
      else if name = ''WM_DELETE_WINDOW'' then 304 else 305 + length name)"

definition demo_server :: xserver where
  "demo_server =
     \<lparr>DisplayWidth = 1920, DisplayHeight = 1000, BlackPixel = 0, WhitePixel = 0xFFFFFF,
      XInternAtom = demo_atom,
      XGetSelectionOwner = (\<lambda>rs a. last_owner (rev rs) a),
      XTranslateCoordinates = (\<lambda>x y. (x + 1860, y + 57)),
      created_window = (\<lambda>rs. 1000 + length rs),
      XTextWidth = (\<lambda>s. 6 * of_nat (length s)),
      font_height = Some 13\<rparr>"

definition demo_init :: dock where
  "demo_init = main_init demo_server 7"

text \<open>The state after a left click at \<open>(10, 10)\<close>, which is inside box 0.\<close>

definition demo_pressed :: dock where
  "demo_pressed =
     fst (the (handle_event demo_server (ButtonPress 7 Button1 10 10) [] demo_init))"

text \<open>The number of clipboard commits so far: every commit asserts the ownership of the
  selection once.\<close>

definition commit_count :: "dock \<Rightarrow> nat" where
  "commit_count st = length (filter is_XSetSelectionOwner (xlog st))"

definition clicked_boxes :: "dock \<Rightarrow> nat list" where
  "clicked_boxes st = filter (\<lambda>i. is_clicked (color_boxes st ! i)) [0..<length (color_boxes st)]"


subsection \<open>Auxiliary notions for the statements\<close>

text \<open>The reply that copies every field of the request.\<close>

definition notify_of :: "selection_request \<Rightarrow> selection_notify" where
  "notify_of req = \<lparr>requestor = req_requestor req, selection = req_selection req,
                     target = req_target req, property = req_property req,
                     time = req_time req\<rparr>"

text \<open>The first \<open>n\<close> bytes that \<^verbatim>\<open>strncpy\<close> writes for the string \<open>t\<close>.\<close>

definition padded :: "string \<Rightarrow> nat \<Rightarrow> char list" where
  "padded t n = take n (takeWhile (\<lambda>c. c \<noteq> NUL) t @ replicate n NUL)"

text \<open>Requests among which no selection ownership is asserted.\<close>

definition quiet :: "xrequest list \<Rightarrow> bool" where
  "quiet rs = (filter is_XSetSelectionOwner rs = [])"

text \<open>Hit testing reads the corners of the boxes and the box size only.\<close>

definition same_geometry :: "dock \<Rightarrow> dock \<Rightarrow> bool" where
  "same_geometry st st' =
     (rect_size st' = rect_size st \<and>
      map (\<lambda>b. (box_x b, box_y b)) (color_boxes st') = map (\<lambda>b. (box_x b, box_y b)) (color_boxes st))"

text \<open>The character classes and number shapes of the output formats.\<close>

definition is_digit :: "char \<Rightarrow> bool" where
  "is_digit c = (c \<in> set ''0123456789'')"

definition is_hex_upper :: "char \<Rightarrow> bool" where
  "is_hex_upper c = (c \<in> set ''0123456789ABCDEF'')"

definition is_hex_lower :: "char \<Rightarrow> bool" where
  "is_hex_lower c = (c \<in> set ''0123456789abcdef'')"

text \<open>A decimal number: one digit or more.\<close>

definition is_number :: "string \<Rightarrow> bool" where
  "is_number s = (s \<noteq> [] \<and> list_all is_digit s)"

text \<open>A fixed-point number with two fractional digits.\<close>

definition is_fixed2 :: "string \<Rightarrow> bool" where
  "is_fixed2 s = (3 \<le> length s \<and> is_number (take (length s - 3) s) \<and>
                  s ! (length s - 3) = CHR ''.'' \<and> list_all is_digit (drop (length s - 2) s))"

text \<open>The text that \<^verbatim>\<open>format_color\<close> hands to \<^verbatim>\<open>snprintf\<close> for each format (nothing for a value
  that is not a format).\<close>

definition format_text :: "u32 \<Rightarrow> ColorFormat \<Rightarrow> string" where
  "format_text c f =
     (let r = chan_r c; g = chan_g c; b = chan_b c
      in if f = FORMAT_HTML_HEX then ''#'' @ fmt_02X r @ fmt_02X g @ fmt_02X b
         else if f = FORMAT_RAW_HEX then ''0x'' @ fmt_02x r @ fmt_02x g @ fmt_02x b
         else if f = FORMAT_CSS_RGB then
           ''rgb('' @ fmt_u r @ '', '' @ fmt_u g @ '', '' @ fmt_u b @ '');''
         else if f = FORMAT_CSS_RGBA then
           ''rgba('' @ fmt_u r @ '', '' @ fmt_u g @ '', '' @ fmt_u b @ '', 1);''
         else if f = FORMAT_HSL then
           ''hsl('' @ fmt_d (fst (hsl_of (norm255 r) (norm255 g) (norm255 b))) @ '', ''
             @ fmt_d (fst (snd (hsl_of (norm255 r) (norm255 g) (norm255 b)))) @ ''%, ''
             @ fmt_d (snd (snd (hsl_of (norm255 r) (norm255 g) (norm255 b)))) @ ''%);''
         else if f = FORMAT_FLOAT then
           fmt_2f (norm255 r) @ ''f, '' @ fmt_2f (norm255 g) @ ''f, '' @ fmt_2f (norm255 b) @ ''f''
         else if f = FORMAT_VEC3 then
           ''vec3('' @ fmt_2f (norm255 r) @ ''f, '' @ fmt_2f (norm255 g) @ ''f, ''
             @ fmt_2f (norm255 b) @ ''f)''
         else if f = FORMAT_VEC4 then
           ''vec4('' @ fmt_2f (norm255 r) @ ''f, '' @ fmt_2f (norm255 g) @ ''f, ''
             @ fmt_2f (norm255 b) @ ''f, 1.00f)''
         else [])"



text \<open>The HSL conversion as the specification words it, in exact arithmetic on the
  normalised channels: maximum, minimum and their difference \<open>delta\<close>; lightness
  \<open>(max + min) / 2\<close>; hue 0 and saturation 0 when \<open>delta = 0\<close>; otherwise saturation
  \<open>delta / (1 - \<bar>2 l - 1\<bar>)\<close> and the hue sector of the first channel, in the order R, G, B,
  that equals the maximum, taken modulo 6 (a negative sector is moved up by 6). The result is
  the hue in degrees and the saturation and lightness in percent, before any rounding.\<close>

definition hsl_standard :: "rat \<Rightarrow> rat \<Rightarrow> rat \<Rightarrow> rat \<times> rat \<times> rat" where
  "hsl_standard r g b =
     (let mx = max r (max g b); mn = min r (min g b); delta = mx - mn; l = (mx + mn) / 2
      in if delta = 0 then (0, 0, 100 * l)
         else
           (let s = delta / (1 - \<bar>2 * l - 1\<bar>);
                sector = (if mx = r then (g - b) / delta
                          else if mx = g then 2 + (b - r) / delta
                          else 4 + (r - g) / delta);
                turn = (if sector < 0 then sector + 6 else sector)
            in (60 * turn, 100 * s, 100 * l)))"

text \<open>An integer is a nearest integer of a number when it is at most one half away from it;
  a number halfway between two integers has two nearest integers.\<close>

definition nearest_integer :: "int \<Rightarrow> rat \<Rightarrow> bool" where
  "nearest_integer k x = (\<bar>of_int k - x\<bar> \<le> 1 / 2)"

text \<open>A click with two buttons: the left button is pressed on box 0 at \<open>(10, 10)\<close>, the right
  button is pressed while the left one is held, which opens the menu; both buttons are
  released and the pointer moves to box 1 at \<open>(10, 65)\<close>, where a left click closes the menu
  (the menu reads these events, none of them is for its window); a second left click on
  box 1 follows, of which the press is the last event.\<close>

definition chorded_click :: "xevent list" where
  "chorded_click =
     [ButtonPress 7 Button1 10 10, ButtonPress 7 Button3 10 10, ButtonRelease 7 Button3 10 10,
      ButtonRelease 7 Button1 10 10, MotionNotify 7 10 65, ButtonPress 7 Button1 10 65,
      ButtonRelease 7 Button1 10 65, ButtonPress 7 Button1 10 65]"

section \<open>Properties\<close>

lemmas FORMAT_defs = FORMAT_HTML_HEX_def FORMAT_RAW_HEX_def FORMAT_CSS_RGB_def
  FORMAT_CSS_RGBA_def FORMAT_HSL_def FORMAT_FLOAT_def FORMAT_VEC3_def FORMAT_VEC4_def
  FORMAT_COUNT_def

subsection \<open>The binary exponent\<close>

lemma powi_neg: "0 \<le> j \<Longrightarrow> (2::rat) powi (- j) = 1 / of_int (2 ^ nat j)"
  by (cases "j = 0") (simp_all add: power_int_def field_simps)

lemma expo_ge1:
  fixes x :: rat
  assumes "1 \<le> x"
  shows "2 powi (expo x) \<le> x \<and> x < 2 powi (expo x + 1)"
proof -
  let ?m = "\<lfloor>x\<rfloor>"
  have m: "0 < ?m" using assms by linarith
  have k: "1 \<le> bitlen ?m"
    using m bitlen_eq_zero_iff [of ?m] bitlen_nonneg [of ?m] by linarith
  have e: "expo x = bitlen ?m - 1" using assms by (simp add: expo_def)
  from bitlen_bounds [OF m]
  have lo: "2 ^ nat (bitlen ?m - 1) \<le> ?m" and hi: "?m < 2 ^ nat (bitlen ?m)" by auto
  have "(2::rat) powi (expo x) = of_int (2 ^ nat (bitlen ?m - 1))"
    using k by (simp add: e power_int_def)
  also have "\<dots> \<le> of_int ?m" using lo by (simp only: of_int_le_iff)
  also have "\<dots> \<le> x" by simp
  finally have 1: "2 powi (expo x) \<le> x" .
  have "?m + 1 \<le> 2 ^ nat (bitlen ?m)" using hi by simp
  then have "(of_int (?m + 1) :: rat) \<le> of_int (2 ^ nat (bitlen ?m))"
    by (simp only: of_int_le_iff)
  moreover have "x < of_int (?m + 1)" by linarith
  moreover have "(2::rat) powi (expo x + 1) = of_int (2 ^ nat (bitlen ?m))"
    using k by (simp add: e power_int_def)
  ultimately have "x < 2 powi (expo x + 1)" by simp
  with 1 show ?thesis ..
qed

lemma expo_lt1:
  fixes x :: rat
  assumes "0 < x" "x < 1"
  shows "2 powi (expo x) \<le> x \<and> x < 2 powi (expo x + 1)"
proof -
  let ?c = "\<lceil>1 / x\<rceil>"
  let ?m = "?c - 1"
  have "1 < 1 / x" using assms by simp
  then have c: "2 \<le> ?c" by linarith
  then have m: "0 < ?m" by simp
  have k: "1 \<le> bitlen ?m"
    using m bitlen_eq_zero_iff [of ?m] bitlen_nonneg [of ?m] by linarith
  have e: "expo x = - bitlen ?m" using assms by (simp add: expo_def)
  from bitlen_bounds [OF m]
  have lo: "2 ^ nat (bitlen ?m - 1) \<le> ?m" and hi: "?m < 2 ^ nat (bitlen ?m)" by auto
  have p1: "(2::rat) powi (expo x) = 1 / of_int (2 ^ nat (bitlen ?m))"
    using k by (simp add: e power_int_def field_simps)
  have p2: "(2::rat) powi (expo x + 1) = 1 / of_int (2 ^ nat (bitlen ?m - 1))"
  proof -
    have "expo x + 1 = - (bitlen ?m - 1)" by (simp add: e)
    moreover have "0 \<le> bitlen ?m - 1" using k by simp
    ultimately show ?thesis
      using powi_neg [of "bitlen ?m - 1"] by simp
  qed
  have "1 / x \<le> of_int ?c" by linarith
  also have "\<dots> \<le> of_int (2 ^ nat (bitlen ?m))"
    using hi by (simp only: of_int_le_iff)
  finally have "1 / x \<le> of_int (2 ^ nat (bitlen ?m))" .
  then have 1: "2 powi (expo x) \<le> x"
    using assms(1) unfolding p1 by (simp add: field_simps)
  have "(of_int (2 ^ nat (bitlen ?m - 1)) :: rat) \<le> of_int ?m"
    using lo by (simp only: of_int_le_iff)
  also have "of_int ?m < 1 / x" by linarith
  finally have "(of_int (2 ^ nat (bitlen ?m - 1)) :: rat) < 1 / x" .
  then have 2: "x < 2 powi (expo x + 1)"
    using assms(1) unfolding p2 by (simp add: field_simps)
  from 1 2 show ?thesis ..
qed

lemma expo_bounds:
  fixes x :: rat
  assumes "0 < x"
  shows "2 powi (expo x) \<le> x" "x < 2 powi (expo x + 1)"
  using expo_ge1 [of x] expo_lt1 [of x] assms by (cases "1 \<le> x"; simp)+


lemma expo_unique:
  fixes x :: rat
  assumes "2 powi e \<le> x" "x < 2 powi (e + 1)"
  shows "expo x = e"
proof -
  have pos: "0 < x"
    using assms(1) zero_less_power_int [of "2::rat" e] by linarith
  note b = expo_bounds [OF pos]
  have "\<not> e < expo x"
  proof
    assume "e < expo x"
    then have "(2::rat) powi (e + 1) \<le> 2 powi (expo x)"
      by (intro power_int_increasing) simp_all
    with assms(2) b(1) show False by linarith
  qed
  moreover have "\<not> expo x < e"
  proof
    assume "expo x < e"
    then have "(2::rat) powi (expo x + 1) \<le> 2 powi e"
      by (intro power_int_increasing) simp_all
    with assms(1) b(2) show False by linarith
  qed
  ultimately show ?thesis by linarith
qed

lemma expo_mono:
  fixes x y :: rat
  assumes "0 < x" "x \<le> y"
  shows "expo x \<le> expo y"
proof (rule ccontr)
  assume "\<not> expo x \<le> expo y"
  then have "(2::rat) powi (expo y + 1) \<le> 2 powi (expo x)"
    by (intro power_int_increasing) simp_all
  moreover have "0 < y" using assms by linarith
  ultimately show False
    using expo_bounds [OF assms(1)] expo_bounds [OF \<open>0 < y\<close>] assms(2) by linarith
qed

subsection \<open>Rounding to an integer\<close>

lemma rhe_cases:
  "round_half_even q = \<lfloor>q\<rfloor> \<or> round_half_even q = \<lfloor>q\<rfloor> + 1"
  by (simp add: round_half_even_def Let_def)

lemma rhe_of_int [simp]: "round_half_even (of_int n) = n"
  by (simp add: round_half_even_def Let_def)

lemma rhe_lower: "q - 1 / 2 \<le> of_int (round_half_even q)"
  unfolding round_half_even_def Let_def by (auto; linarith)

lemma rhe_upper: "of_int (round_half_even q) \<le> q + 1 / 2"
  unfolding round_half_even_def Let_def by (auto; linarith)

lemma rhe_mono:
  assumes "q \<le> q'"
  shows "round_half_even q \<le> round_half_even q'"
proof (cases "\<lfloor>q\<rfloor> = \<lfloor>q'\<rfloor>")
  case True
  with assms show ?thesis
    unfolding round_half_even_def Let_def by (auto; linarith)
next
  case False
  with assms have "\<lfloor>q\<rfloor> + 1 \<le> \<lfloor>q'\<rfloor>"
    using floor_mono [OF assms] by linarith
  moreover have "round_half_even q \<le> \<lfloor>q\<rfloor> + 1"
    using rhe_cases [of q] by linarith
  moreover have "\<lfloor>q'\<rfloor> \<le> round_half_even q'"
    using rhe_cases [of q'] by linarith
  ultimately show ?thesis by linarith
qed

lemma rhe_le_int: "q \<le> of_int n \<Longrightarrow> round_half_even q \<le> n"
  using rhe_mono [of q "of_int n"] by simp

lemma rhe_ge_int: "of_int n \<le> q \<Longrightarrow> n \<le> round_half_even q"
  using rhe_mono [of "of_int n" q] by simp

lemma rhe_minus: "round_half_even (- q) = - round_half_even q"
proof (cases "q = of_int \<lfloor>q\<rfloor>")
  case True
  then obtain n where "q = of_int n" ..
  then have "- q = of_int (- n)" by simp
  then show ?thesis
    using \<open>q = of_int n\<close> by (simp only: rhe_of_int)
next
  case False
  then have fl: "\<lfloor>- q\<rfloor> = - \<lfloor>q\<rfloor> - 1"
    by (metis ceiling_altdef ceiling_def add_diff_cancel_right' minus_diff_eq neg_equal_iff_equal uminus_add_conv_diff)
  have fr: "0 < q - of_int \<lfloor>q\<rfloor>" "q - of_int \<lfloor>q\<rfloor> < 1"
    using False by linarith+
  show ?thesis
    unfolding round_half_even_def Let_def fl using fr
    by (auto simp: field_simps)
qed


subsection \<open>Rounding to a double\<close>

lemma fl_0 [simp]: "fl 0 = 0"
  by (simp add: fl_def)

lemma fl_pos_eq:
  "0 < x \<Longrightarrow> fl x = of_int (round_half_even (x / 2 powi (expo x - 52))) * 2 powi (expo x - 52)"
  by (simp add: fl_def Let_def)

lemma fl_minus: "fl (- x) = - fl x"
  by (simp add: fl_def Let_def rhe_minus)

lemma scaled_bounds:
  fixes x :: rat
  assumes "0 < x"
  shows "2 ^ 52 \<le> x / 2 powi (expo x - 52)" "x / 2 powi (expo x - 52) < 2 ^ 53"
proof -
  define c where "c = x / 2 powi (expo x)"
  have p: "(0::rat) < 2 powi (expo x)" by simp
  have eq: "x / 2 powi (expo x - 52) = c * 2 ^ 52"
    by (simp add: c_def power_int_diff)
  have c1: "1 \<le> c"
    unfolding c_def using expo_bounds(1) [OF assms] p by (simp add: field_simps)
  have c2: "c < 2"
  proof -
    have "(2::rat) powi (expo x + 1) = 2 powi (expo x) * 2"
      by (simp add: power_int_add)
    then show ?thesis
      unfolding c_def using expo_bounds(2) [OF assms] p by (simp add: field_simps)
  qed
  have "1 * (2::rat) ^ 52 \<le> c * 2 ^ 52"
    using c1 by (intro mult_right_mono) simp_all
  then show "2 ^ 52 \<le> x / 2 powi (expo x - 52)"
    unfolding eq by simp
  have "c * (2::rat) ^ 52 < 2 * 2 ^ 52"
    using c2 by (intro mult_strict_right_mono) simp_all
  then show "x / 2 powi (expo x - 52) < 2 ^ 53"
    unfolding eq by simp
qed

lemma fl_pos_bounds:
  fixes x :: rat
  assumes "0 < x"
  shows "2 powi (expo x) \<le> fl x" "fl x \<le> 2 powi (expo x + 1)"
proof -
  let ?u = "(2::rat) powi (expo x - 52)"
  let ?n = "round_half_even (x / ?u)"
  have u: "0 < ?u" by simp
  have "(of_int (2 ^ 52) :: rat) \<le> x / ?u" using scaled_bounds(1) [OF assms] by simp
  then have "2 ^ 52 \<le> ?n" by (rule rhe_ge_int)
  then have "(of_int (2 ^ 52) :: rat) \<le> of_int ?n"
    by (simp only: of_int_le_iff)
  then have lo: "(2 ^ 52 :: rat) \<le> of_int ?n"
    by simp
  have "x / ?u \<le> of_int (2 ^ 53)" using scaled_bounds(2) [OF assms] by simp
  then have "?n \<le> 2 ^ 53" by (rule rhe_le_int)
  then have "(of_int ?n :: rat) \<le> of_int (2 ^ 53)"
    by (simp only: of_int_le_iff)
  then have hi: "of_int ?n \<le> (2 ^ 53 :: rat)"
    by simp
  have e1: "(2::rat) powi (expo x) = 2 ^ 52 * ?u"
    by (simp add: power_int_diff)
  have e2: "(2::rat) powi (expo x + 1) = 2 ^ 53 * ?u"
    by (simp add: power_int_diff power_int_add)
  show "2 powi (expo x) \<le> fl x"
    unfolding fl_pos_eq [OF assms] e1 using lo u by (intro mult_right_mono) simp_all
  show "fl x \<le> 2 powi (expo x + 1)"
    unfolding fl_pos_eq [OF assms] e2 using hi u by (intro mult_right_mono) simp_all
qed

lemma fl_pos: "0 < x \<Longrightarrow> 0 < fl x"
  using fl_pos_bounds(1) [of x] zero_less_power_int [of "2::rat" "expo x"] by linarith

lemma fl_mono_pos:
  assumes "0 < x" "x \<le> y"
  shows "fl x \<le> fl y"
proof -
  have y: "0 < y" using assms by linarith
  show ?thesis
  proof (cases "expo x = expo y")
    case True
    let ?u = "(2::rat) powi (expo y - 52)"
    have "x / ?u \<le> y / ?u" using assms(2) by (simp add: divide_right_mono)
    then have "round_half_even (x / ?u) \<le> round_half_even (y / ?u)" by (rule rhe_mono)
    then have "(of_int (round_half_even (x / ?u)) :: rat) * ?u \<le> of_int (round_half_even (y / ?u)) * ?u"
      by (intro mult_right_mono) simp_all
    then show ?thesis
      by (simp add: fl_pos_eq [OF assms(1)] fl_pos_eq [OF y] True)
  next
    case False
    with expo_mono [OF assms] have "expo x + 1 \<le> expo y" by linarith
    then have "(2::rat) powi (expo x + 1) \<le> 2 powi (expo y)"
      by (intro power_int_increasing) simp_all
    with fl_pos_bounds(2) [OF assms(1)] fl_pos_bounds(1) [OF y] show ?thesis by linarith
  qed
qed

lemma fl_nonneg: "0 \<le> x \<Longrightarrow> 0 \<le> fl x"
  using fl_pos [of x] by (cases "x = 0") (simp_all add: less_le)

lemma fl_nonpos: "x \<le> 0 \<Longrightarrow> fl x \<le> 0"
  using fl_nonneg [of "- x"] by (simp add: fl_minus)

lemma fl_mono:
  assumes "x \<le> y"
  shows "fl x \<le> fl y"
proof -
  consider "0 < x" | "x \<le> 0" "0 \<le> y" | "y < 0" by linarith
  then show ?thesis
  proof cases
    case 1
    then show ?thesis using assms by (rule fl_mono_pos)
  next
    case 2
    then show ?thesis using fl_nonpos [of x] fl_nonneg [of y] by linarith
  next
    case 3
    then have "fl (- y) \<le> fl (- x)" using assms by (intro fl_mono_pos) simp_all
    then show ?thesis by (simp add: fl_minus)
  qed
qed

lemma fl_zero_iff: "fl x = 0 \<longleftrightarrow> x = 0"
proof
  assume "fl x = 0"
  show "x = 0"
  proof (rule ccontr)
    assume "x \<noteq> 0"
    then consider "0 < x" | "0 < - x" by linarith
    then show False
      using fl_pos [of x] fl_pos [of "- x"] \<open>fl x = 0\<close> by cases (simp_all add: fl_minus)
  qed
qed simp

text \<open>Integers below \<open>2\<^sup>5\<^sup>3\<close> are doubles.\<close>

lemma fl_of_int_pos:
  assumes "0 < n" "n < 2 ^ 53"
  shows "fl (of_int n) = of_int n"
proof -
  let ?x = "of_int n :: rat"
  have x: "0 < ?x" using assms by simp
  have "(2::rat) powi (expo ?x) \<le> ?x" using expo_bounds(1) [OF x] .
  also have "?x < 2 powi 53"
  proof -
    have "?x < of_int (2 ^ 53)" using assms(2) by (simp only: of_int_less_iff)
    then show ?thesis by simp
  qed
  finally have "expo ?x < 53"
    by (intro power_int_le_imp_less_exp [of "2::rat"]) simp_all
  then have "0 \<le> 52 - expo ?x" by simp
  then obtain k :: nat where k: "52 - expo ?x = int k"
    by (rule nonneg_int_cases)
  have u: "(2::rat) powi (expo ?x - 52) = 1 / 2 ^ k"
  proof -
    have "expo ?x - 52 = - int k" using k by linarith
    then show ?thesis by (simp add: power_int_minus_divide)
  qed
  have "?x / 2 powi (expo ?x - 52) = of_int (n * 2 ^ k)"
    by (simp add: u)
  then have "round_half_even (?x / 2 powi (expo ?x - 52)) = n * 2 ^ k"
    by (simp only: rhe_of_int)
  then show ?thesis
    by (simp add: fl_pos_eq [OF x] u)
qed

lemma fl_of_int: "\<bar>n\<bar> < 2 ^ 53 \<Longrightarrow> fl (of_int n) = of_int n"
proof -
  assume a: "\<bar>n\<bar> < 2 ^ 53"
  consider "0 < n" | "n = 0" | "0 < - n" by linarith
  then show ?thesis
  proof cases
    case 1
    then show ?thesis using a by (intro fl_of_int_pos) simp_all
  next
    case 2
    then show ?thesis by simp
  next
    case 3
    then have "fl (of_int (- n)) = of_int (- n)" using a by (intro fl_of_int_pos) simp_all
    then show ?thesis by (simp add: fl_minus)
  qed
qed

lemma fl_numeral [simp]: "numeral w < (2 ^ 53 :: int) \<Longrightarrow> fl (numeral w) = numeral w"
  using fl_of_int [of "numeral w"] by simp

lemma fl_1 [simp]: "fl 1 = 1"
  using fl_of_int [of 1] by simp

lemma fl_of_nat: "n < 2 ^ 53 \<Longrightarrow> fl (of_nat n) = of_nat n"
  using fl_of_int [of "int n"] by simp

lemma rhe_near: "0 \<le> f \<Longrightarrow> f < 1 / 2 \<Longrightarrow> round_half_even (of_int m + f) = m"
proof -
  assume f: "0 \<le> f" "f < 1 / 2"
  then have "\<lfloor>of_int m + f\<rfloor> = m" by linarith
  then show ?thesis using f by (simp add: round_half_even_def Let_def)
qed

lemma expo_of_int_less:
  assumes "0 < n" "n < 2 ^ 53"
  shows "expo (of_int n) < 53" "0 \<le> expo (of_int n)"
proof -
  let ?x = "of_int n :: rat"
  have x: "0 < ?x" using assms by simp
  have "(2::rat) powi (expo ?x) \<le> ?x" using expo_bounds(1) [OF x] .
  also have "?x < 2 powi 53"
  proof -
    have "?x < of_int (2 ^ 53)" using assms(2) by (simp only: of_int_less_iff)
    then show ?thesis by simp
  qed
  finally show "expo ?x < 53"
    by (intro power_int_le_imp_less_exp [of "2::rat"]) simp_all
  show "0 \<le> expo ?x"
  proof (rule ccontr)
    assume "\<not> 0 \<le> expo ?x"
    then have "(2::rat) powi (expo ?x + 1) \<le> 2 powi 0"
      by (intro power_int_increasing) simp_all
    moreover have "1 \<le> ?x" using assms(1) by simp
    ultimately show False using expo_bounds(2) [OF x] by simp
  qed
qed

lemma of_int_less_pow2:
  assumes "(of_int n :: rat) < 2 ^ k"
  shows "(of_int n :: rat) + 1 \<le> 2 ^ k"
proof -
  have "(of_int n :: rat) < of_int (2 ^ k)" using assms by simp
  then have "n < 2 ^ k" by (simp only: of_int_less_iff)
  then have "n + 1 \<le> 2 ^ k" by simp
  then have "(of_int (n + 1) :: rat) \<le> of_int (2 ^ k)" by (simp only: of_int_le_iff)
  then show ?thesis by simp
qed

text \<open>A number slightly above an integer rounds to the integer.\<close>

lemma fl_near:
  assumes "0 < n" "n < 2 ^ 53" "0 \<le> d" "d \<le> of_int n / 2 ^ 54"
  shows "fl (of_int n + d) = of_int n"
proof -
  let ?N = "of_int n :: rat"
  let ?e = "expo ?N"
  have N: "0 < ?N" using assms(1) by simp
  note e = expo_of_int_less [OF assms(1,2)]
  obtain j :: nat where j: "?e = int j" using e(2) by (rule nonneg_int_cases)
  have "0 \<le> 52 - ?e" using e(1) by simp
  then obtain k :: nat where k: "52 - ?e = int k" by (rule nonneg_int_cases)
  have Nlo: "2 ^ j \<le> ?N" using expo_bounds(1) [OF N] by (simp add: j)
  have Nhi: "?N < 2 ^ (j + 1)" using expo_bounds(2) [OF N] j
    by (metis of_nat_Suc power_int_of_nat Suc_eq_plus1 add.commute of_nat_1 of_nat_add)
  have d1: "d < 1 / 2"
  proof -
    have "?N / 2 ^ 54 < 2 ^ 53 / (2 ^ 54 :: rat)"
    proof -
      have "?N < of_int (2 ^ 53)" using assms(2) by (simp only: of_int_less_iff)
      then show ?thesis by (simp add: divide_strict_right_mono)
    qed
    with assms(4) show ?thesis by simp
  qed
  have x: "0 < ?N + d" using N assms(3) by linarith
  have ex: "expo (?N + d) = ?e"
  proof (rule expo_unique)
    show "2 powi ?e \<le> ?N + d" using expo_bounds(1) [OF N] assms(3) by linarith
    have "?N + 1 \<le> 2 ^ (j + 1)" using Nhi by (rule of_int_less_pow2)
    then have "?N + d < 2 ^ (j + 1)" using d1 by linarith
    then show "?N + d < 2 powi (?e + 1)"
      using j by (metis of_nat_Suc power_int_of_nat Suc_eq_plus1 add.commute of_nat_1 of_nat_add)
  qed
  have u: "(2::rat) powi (?e - 52) = 1 / 2 ^ k"
  proof -
    have "?e - 52 = - int k" using k by linarith
    then show ?thesis by (simp add: power_int_minus_divide)
  qed
  have frac: "d * 2 ^ k < 1 / 2"
  proof -
    have "j + k = 52" using j k by linarith
    then have "j + 1 + k + 1 = 54" by simp
    moreover have "(2::rat) ^ (j + 1) * 2 ^ k * 2 = 2 ^ (j + 1 + k + 1)"
      by (simp add: power_add)
    ultimately have "(2::rat) ^ 54 = 2 ^ (j + 1) * 2 ^ k * 2"
      by (simp only:)
    then have eq: "?N / 2 ^ 54 * 2 ^ k = ?N / 2 ^ (j + 1) / 2"
      by (simp add: field_simps)
    have "?N / 2 ^ (j + 1) < 1" using Nhi by simp
    then have lt: "?N / 2 ^ (j + 1) / 2 < 1 / 2"
      by (rule divide_strict_right_mono) simp
    have "d * 2 ^ k \<le> ?N / 2 ^ 54 * 2 ^ k"
      using assms(4) by (intro mult_right_mono) simp_all
    also note eq
    also note lt
    finally show ?thesis .
  qed
  have "(?N + d) / 2 powi (?e - 52) = of_int (n * 2 ^ k) + d * 2 ^ k"
    by (simp add: u field_simps)
  then have "round_half_even ((?N + d) / 2 powi (?e - 52)) = n * 2 ^ k"
    using rhe_near [of "d * 2 ^ k" "n * 2 ^ k"] frac assms(3) by simp
  then show ?thesis
    by (simp add: fl_pos_eq [OF x] ex u)
qed

text \<open>Integers below \<open>2\<^sup>5\<^sup>3\<close> divided by a power of two are doubles.\<close>

lemma expo_scale:
  fixes x :: rat
  assumes "0 < x"
  shows "expo (x / 2 ^ m) = expo x - int m"
proof (rule expo_unique)
  have p: "(2::rat) powi (expo x - int m) = 2 powi (expo x) / 2 ^ m"
    by (simp add: power_int_diff)
  show "2 powi (expo x - int m) \<le> x / 2 ^ m"
    unfolding p using expo_bounds(1) [OF assms] by (simp add: divide_right_mono)
  have "(2::rat) powi (expo x - int m + 1) = 2 powi (expo x + 1) / 2 ^ m"
    by (simp add: power_int_diff power_int_add)
  then show "x / 2 ^ m < 2 powi (expo x - int m + 1)"
    using expo_bounds(2) [OF assms] by (simp add: divide_strict_right_mono)
qed

lemma fl_scale: "fl (x / 2 ^ m) = fl x / 2 ^ m"
proof -
  have pos: "fl (x / 2 ^ m) = fl x / 2 ^ m" if "0 < x" for x :: rat
  proof -
    have x': "0 < x / 2 ^ m" using that by simp
    have u: "(2::rat) powi (expo x - int m - 52) = 2 powi (expo x - 52) / 2 ^ m"
      by (simp add: power_int_diff)
    show ?thesis
      by (simp add: fl_pos_eq [OF that] fl_pos_eq [OF x'] expo_scale [OF that] u)
  qed
  consider "0 < x" | "x = 0" | "0 < - x" by linarith
  then show ?thesis
  proof cases
    case 1
    then show ?thesis by (rule pos)
  next
    case 2
    then show ?thesis by simp
  next
    case 3
    then have "fl (- x / 2 ^ m) = fl (- x) / 2 ^ m" by (rule pos)
    then show ?thesis
      using fl_minus [of "x / 2 ^ m"] by (simp add: fl_minus)
  qed
qed

lemma fl_dyadic: "\<bar>n\<bar> < 2 ^ 53 \<Longrightarrow> fl (of_int n / 2 ^ m) = of_int n / 2 ^ m"
  by (simp add: fl_scale fl_of_int)

subsection \<open>The layout computed by main\<close>

lemma margin_value: "DOCK_HEIGHT_MARGIN = 1 / 5 + 1 / (5 * 2 ^ 54)"
  unfolding DOCK_HEIGHT_MARGIN_def by code_simp

lemma of_nat_less_2_53: "n < 2 ^ 50 \<Longrightarrow> \<bar>int n\<bar> < 2 ^ 53"
  by simp

lemma fl_nat: "n < 2 ^ 50 \<Longrightarrow> fl (of_nat n) = of_nat n"
  by (rule fl_of_nat) simp

lemma fl_nat_dyadic: "n < 2 ^ 50 \<Longrightarrow> fl (of_nat n / 2 ^ m) = of_nat n / 2 ^ m"
  using fl_dyadic [of "int n" m] by simp

lemma rect_size_double:
  fixes H :: nat
  assumes "H < 2 ^ 32"
  shows "\<lfloor>ddiv (dsub (of_nat H) (dmul DOCK_HEIGHT_MARGIN (of_nat H))) 16\<rfloor> = int (H div 20)"
proof -
  define k r A where "k = H div 20" and "r = H mod 20" and "A = (8 * H) div 5"
  define p where "p = fl (DOCK_HEIGHT_MARGIN * of_nat H)"
  define d where "d = fl (of_nat H - p)"
  define q where "q = fl (d / 16)"
  have H: "H = 20 * k + r" and r: "r < 20" by (simp_all add: k_def r_def)
  have Hq: "(of_nat H :: rat) = 20 * of_nat k + of_nat r"
    by (subst H) simp
  have Hlt: "(of_nat H :: rat) < 2 ^ 32"
  proof -
    have "(of_nat H :: rat) < of_nat (2 ^ 32)" using assms by (simp only: of_nat_less_iff)
    then show ?thesis by simp
  qed
  have rq: "(of_nat r :: rat) \<le> 19"
  proof -
    have "r \<le> 19" using r by simp
    then have "(of_nat r :: rat) \<le> of_nat 19" by (simp only: of_nat_le_iff)
    then show ?thesis by simp
  qed
  have small: "k < 2 ^ 50" "4 * k < 2 ^ 50" "16 * k < 2 ^ 50" "4 * k + r < 2 ^ 50" "A < 2 ^ 50"
    "8 * H - A < 2 ^ 50"
    using assms by (simp_all add: k_def r_def A_def)
  have MH: "DOCK_HEIGHT_MARGIN * of_nat H = of_nat H / 5 + of_nat H / (5 * 2 ^ 54)"
    by (simp add: margin_value field_simps)
  have p_le: "p \<le> of_nat (4 * k + r)"
  proof (cases "r = 0")
    case r0: True
    show ?thesis
    proof (cases "k = 0")
      case True
      with r0 H show ?thesis by (simp add: p_def)
    next
      case False
      define n where "n = int (4 * k)"
      have eq: "DOCK_HEIGHT_MARGIN * of_nat H = of_int n + of_int n / 2 ^ 54"
        by (subst MH) (simp add: Hq r0 n_def)
      have f: "fl (of_int n + of_int n / 2 ^ 54) = of_int n"
        using False small(2) by (intro fl_near) (simp_all add: n_def)
      have "p = of_int n"
        unfolding p_def eq by (rule f)
      then show ?thesis by (simp add: n_def r0)
    qed
  next
    case False
    then have "1 \<le> (of_nat r :: rat)" by simp
    then have "DOCK_HEIGHT_MARGIN * of_nat H \<le> of_nat (4 * k + r)"
      unfolding MH using Hlt by (simp add: Hq field_simps)
    then have "p \<le> fl (of_nat (4 * k + r))"
      unfolding p_def by (rule fl_mono)
    then show ?thesis by (simp only: fl_nat [OF small(4)])
  qed
  have A1: "5 * (of_nat A :: rat) \<le> 8 * of_nat H"
  proof -
    have "5 * A \<le> 8 * H" by (simp add: A_def)
    then have "(of_nat (5 * A) :: rat) \<le> of_nat (8 * H)" by (simp only: of_nat_le_iff)
    then show ?thesis by simp
  qed
  have A2: "8 * (of_nat H :: rat) \<le> 5 * of_nat A + 4"
  proof -
    have "8 * H \<le> 5 * A + 4" unfolding A_def by presburger
    then have "(of_nat (8 * H) :: rat) \<le> of_nat (5 * A + 4)" by (simp only: of_nat_le_iff)
    then show ?thesis by simp
  qed
  have p_ge: "of_nat A / 2 ^ 3 \<le> p"
  proof -
    have "of_nat A / 2 ^ 3 \<le> DOCK_HEIGHT_MARGIN * of_nat H"
      unfolding MH using A1 by (simp add: field_simps)
    then have "fl (of_nat A / 2 ^ 3) \<le> p"
      unfolding p_def by (rule fl_mono)
    then show ?thesis by (simp only: fl_nat_dyadic [OF small(5)])
  qed
  have d_ge: "of_nat (16 * k) \<le> d"
  proof -
    have "(of_nat (16 * k) :: rat) \<le> of_nat H - p"
      using p_le by (simp add: Hq)
    then have "fl (of_nat (16 * k)) \<le> d"
      unfolding d_def by (rule fl_mono)
    then show ?thesis by (simp only: fl_nat [OF small(3)])
  qed
  have AH: "A \<le> 8 * H" by (simp add: A_def)
  have d_le: "d \<le> of_nat (8 * H - A) / 2 ^ 3"
  proof -
    have "of_nat H - p \<le> of_nat (8 * H - A) / 2 ^ 3"
      using p_ge AH by (simp add: of_nat_diff field_simps)
    then have "d \<le> fl (of_nat (8 * H - A) / 2 ^ 3)"
      unfolding d_def by (rule fl_mono)
    then show ?thesis by (simp only: fl_nat_dyadic [OF small(6)])
  qed
  have q_ge: "of_nat k \<le> q"
  proof -
    have "(of_nat k :: rat) \<le> d / 16" using d_ge by simp
    then have "fl (of_nat k) \<le> q" unfolding q_def by (rule fl_mono)
    then show ?thesis by (simp only: fl_nat [OF small(1)])
  qed
  have q_le: "q \<le> of_nat (8 * H - A) / 2 ^ 7"
  proof -
    have "d / 16 \<le> of_nat (8 * H - A) / 2 ^ 7" using d_le by simp
    then have "q \<le> fl (of_nat (8 * H - A) / 2 ^ 7)" unfolding q_def by (rule fl_mono)
    then show ?thesis by (simp only: fl_nat_dyadic [OF small(6)])
  qed
  have "of_nat (8 * H - A) / 2 ^ 7 < (of_nat k :: rat) + 1"
    using A2 AH rq by (simp add: of_nat_diff Hq field_simps)
  with q_le have "q < of_nat k + 1" by linarith
  with q_ge have "\<lfloor>q\<rfloor> = int k" by linarith
  then show ?thesis
    by (simp add: q_def d_def p_def ddiv_def dsub_def dmul_def k_def)
qed

lemma main_rect_size_div: "main_rect_size h = h div 20"
proof -
  have "unat h < 2 ^ 32" using unsigned_less [of h] by simp
  then have "main_rect_size h = word_of_int (int (unat h div 20))"
    unfolding main_rect_size_def PALETTE_LENGTH_def using rect_size_double [of "unat h"] by simp
  also have "\<dots> = h div 20"
    by (simp add: word_arith_nat_div)
  finally show ?thesis .
qed

text \<open>
  Claim C9. The box size computed at startup is the integer part of
  \<open>(height - 0.20 * height) / 16\<close>, although the program computes it in doubles (it is the
  height divided by 20, \<open>main_rect_size_div\<close>); the width and the height of the dock are
  \<open>2 * padding + size\<close> and \<open>16 * (size + padding) + padding\<close> without wrap-around in
  \<^verbatim>\<open>uint32_t\<close>; these are the values the program starts with; and a display of 1000 pixels
  gives 50, 60 and 885.
\<close>

theorem layout_computation:
  "unat (main_rect_size h) =
     nat \<lfloor>(of_nat (unat h) - (20 / 100) * of_nat (unat h)) / of_nat PALETTE_LENGTH :: rat\<rfloor> \<and>
   unat (main_dock_width (main_rect_size h)) = 2 * unat PADDING + unat (main_rect_size h) \<and>
   unat (main_dock_height (main_rect_size h)) =
     PALETTE_LENGTH * (unat (main_rect_size h) + unat PADDING) + unat PADDING \<and>
   rect_size (main_init xs win) = main_rect_size (word_of_int (DisplayHeight xs)) \<and>
   dock_width (main_init xs win) = main_dock_width (rect_size (main_init xs win)) \<and>
   dock_height (main_init xs win) = main_dock_height (rect_size (main_init xs win)) \<and>
   main_rect_size 1000 = 50 \<and> main_dock_width 50 = 60 \<and> main_dock_height 50 = 885"
proof -
  have e: "unat (main_rect_size h) = unat h div 20"
    by (simp add: main_rect_size_div unat_div)
  have "(of_nat (unat h) - (20 / 100) * of_nat (unat h)) / of_nat PALETTE_LENGTH
          = (of_nat (unat h) :: rat) / of_nat 20"
    by (simp add: PALETTE_LENGTH_def)
  then have 1: "nat \<lfloor>(of_nat (unat h) - (20 / 100) * of_nat (unat h)) / of_nat PALETTE_LENGTH :: rat\<rfloor>
      = unat h div 20"
    by (simp only: floor_divide_of_nat_eq nat_int)
  have "unat h < 2 ^ 32" using unsigned_less [of h] by simp
  then have b: "unat (main_rect_size h) < 214748365" unfolding e by simp
  have 2: "unat (main_dock_width (main_rect_size h)) = 2 * unat PADDING + unat (main_rect_size h)"
    using b by (simp add: main_dock_width_def PADDING_def unat_word_ariths)
  have 3: "unat (main_dock_height (main_rect_size h)) =
     PALETTE_LENGTH * (unat (main_rect_size h) + unat PADDING) + unat PADDING"
    using b by (simp add: main_dock_height_def PADDING_def PALETTE_LENGTH_def unat_word_ariths)
  have 4: "main_rect_size 1000 = 50"
    by (simp add: main_rect_size_div)
  have 5: "main_dock_width 50 = 60" "main_dock_height 50 = 885"
    by (simp_all add: main_dock_width_def main_dock_height_def PADDING_def PALETTE_LENGTH_def)
  have 6: "rect_size (main_init xs win) = main_rect_size (word_of_int (DisplayHeight xs))"
    "dock_width (main_init xs win) = main_dock_width (rect_size (main_init xs win))"
    "dock_height (main_init xs win) = main_dock_height (rect_size (main_init xs win))"
    by (simp_all add: main_init_def initialize_color_boxes_def Let_def)
  from e 1 2 3 4 5 6 show ?thesis by simp
qed



subsection \<open>The doubles of the HSL conversion stay in range\<close>

lemma fl_between:
  assumes "a \<le> x" "x \<le> b" "fl a = a" "fl b = b"
  shows "a \<le> fl x \<and> fl x \<le> b"
  using fl_mono [OF assms(1)] fl_mono [OF assms(2)] assms(3,4) by simp

lemma fl_m1 [simp]: "fl (- 1) = - 1"
  by (simp add: fl_minus)

lemma norm255_bounds: "n \<le> 255 \<Longrightarrow> 0 \<le> norm255 n \<and> norm255 n \<le> 1"
  unfolding norm255_def ddiv_def by (rule fl_between) simp_all

lemma c_round_bounds:
  "0 \<le> x \<Longrightarrow> x \<le> of_int N \<Longrightarrow> 0 \<le> c_round x \<and> c_round x \<le> N"
  unfolding c_round_def by (simp; linarith)

lemma quotient_le_1:
  fixes n d :: rat
  assumes "0 < d" "- d \<le> n" "n \<le> d"
  shows "- 1 \<le> fl (n / d) \<and> fl (n / d) \<le> 1"
  by (rule fl_between) (use assms in \<open>simp_all add: field_simps\<close>)

lemma delta_bounds:
  assumes "0 \<le> mn" "mn \<le> mx" "mx \<le> 1"
  shows "0 \<le> dsub mx mn \<and> dsub mx mn \<le> 1"
  unfolding dsub_def by (rule fl_between) (use assms in simp_all)

lemma lightness_bounds:
  assumes "0 \<le> mn" "mn \<le> mx" "mx \<le> 1"
  shows "0 \<le> dmul (ddiv (dadd mx mn) 2) 100 \<and> dmul (ddiv (dadd mx mn) 2) 100 \<le> 100"
proof -
  have s: "0 \<le> dadd mx mn \<and> dadd mx mn \<le> 2"
    unfolding dadd_def by (rule fl_between) (use assms in simp_all)
  have l: "0 \<le> ddiv (dadd mx mn) 2 \<and> ddiv (dadd mx mn) 2 \<le> 1"
    unfolding ddiv_def by (rule fl_between) (use s in simp_all)
  show ?thesis
    unfolding dmul_def by (rule fl_between) (use l in simp_all)
qed

lemma saturation_bounds:
  assumes "0 \<le> mn" "mn \<le> mx" "mx \<le> 1"
  defines "delta \<equiv> dsub mx mn"
  defines "s \<equiv> (if delta \<noteq> 0
               then (if ddiv (dadd mx mn) 2 < 1 / 2 then ddiv delta (dadd mx mn)
                     else ddiv delta (dsub (dsub 2 mx) mn))
               else 0)"
  shows "0 \<le> dmul s 100 \<and> dmul s 100 \<le> 100"
proof -
  have d: "0 \<le> delta" "delta \<le> 1"
    using delta_bounds [OF assms(1-3)] by (simp_all add: delta_def)
  have s: "0 \<le> s \<and> s \<le> 1"
  proof (cases "delta = 0")
    case True
    then show ?thesis by (simp add: s_def)
  next
    case False
    then have dpos: "0 < delta" using d by simp
    have den1: "delta \<le> dadd mx mn"
      unfolding delta_def dsub_def dadd_def by (rule fl_mono) (use assms in simp)
    have "1 \<le> dsub 2 mx"
      unfolding dsub_def using fl_mono [of 1 "2 - mx"] assms by simp
    then have den2: "delta \<le> dsub (dsub 2 mx) mn"
      unfolding delta_def dsub_def [of mx mn] dsub_def [of "dsub 2 mx" mn]
      by (intro fl_mono) (use assms in linarith)
    have q: "0 \<le> fl (delta / dd) \<and> fl (delta / dd) \<le> 1" if "delta \<le> dd" for dd
      by (rule fl_between) (use that dpos in \<open>simp_all add: field_simps\<close>)
    show ?thesis
      using q [OF den1] q [OF den2] False by (simp add: s_def ddiv_def)
  qed
  show ?thesis
    unfolding dmul_def by (rule fl_between) (use s in simp_all)
qed

lemma hue_bounds:
  assumes "0 \<le> mn" "mn \<le> mx" "mx \<le> 1"
    and "mn \<le> r" "r \<le> mx" "mn \<le> g" "g \<le> mx" "mn \<le> b" "b \<le> mx"
  defines "delta \<equiv> dsub mx mn"
  defines "h \<equiv> (if delta \<noteq> 0
               then (let h1 = (if mx = r then ddiv (dsub g b) delta
                               else if mx = g then dadd 2 (ddiv (dsub b r) delta)
                               else dadd 4 (ddiv (dsub r g) delta));
                         h2 = dmul h1 60
                     in if h2 < 0 then dadd h2 360 else h2)
               else 0)"
  shows "0 \<le> h \<and> h \<le> 360"
proof (cases "delta = 0")
  case True
  then show ?thesis by (simp add: h_def)
next
  case False
  have d: "0 \<le> delta"
    using delta_bounds [OF assms(1-3)] by (simp add: delta_def)
  with False have dpos: "0 < delta" by simp
  have q: "- 1 \<le> ddiv (dsub u v) delta \<and> ddiv (dsub u v) delta \<le> 1"
    if "mn \<le> u" "u \<le> mx" "mn \<le> v" "v \<le> mx" for u v
  proof -
    have "dsub u v \<le> delta"
      unfolding delta_def dsub_def by (rule fl_mono) (use that in linarith)
    moreover have "- delta \<le> dsub u v"
      unfolding delta_def dsub_def fl_minus [symmetric] by (rule fl_mono) (use that in linarith)
    ultimately show ?thesis
      unfolding ddiv_def using dpos by (intro quotient_le_1)
  qed
  define h1 where "h1 = (if mx = r then ddiv (dsub g b) delta
                               else if mx = g then dadd 2 (ddiv (dsub b r) delta)
                               else dadd 4 (ddiv (dsub r g) delta))"
  have a2: "- 1 \<le> dadd 2 x \<and> dadd 2 x \<le> 5" if "- 1 \<le> x \<and> x \<le> 1" for x
  proof -
    have "fl 1 \<le> fl (2 + x)" "fl (2 + x) \<le> fl 3"
      by (rule fl_mono, use that in linarith)+
    then show ?thesis by (simp add: dadd_def)
  qed
  have a4: "- 1 \<le> dadd 4 x \<and> dadd 4 x \<le> 5" if "- 1 \<le> x \<and> x \<le> 1" for x
  proof -
    have "fl 3 \<le> fl (4 + x)" "fl (4 + x) \<le> fl 5"
      by (rule fl_mono, use that in linarith)+
    then show ?thesis by (simp add: dadd_def)
  qed
  have h1: "- 1 \<le> h1 \<and> h1 \<le> 5"
    unfolding h1_def using q [OF assms(6,7,8,9)] a2 [OF q [OF assms(8,9,4,5)]]
      a4 [OF q [OF assms(4,5,6,7)]] by simp
  have h2: "- 60 \<le> dmul h1 60 \<and> dmul h1 60 \<le> 300"
  proof -
    have "fl (- 60) \<le> fl (h1 * 60)" "fl (h1 * 60) \<le> fl 300"
      by (rule fl_mono, use h1 in linarith)+
    then show ?thesis by (simp add: dmul_def fl_minus)
  qed
  have h3: "0 \<le> dadd (dmul h1 60) 360 \<and> dadd (dmul h1 60) 360 \<le> 360" if "dmul h1 60 < 0"
  proof -
    have "fl 300 \<le> fl (dmul h1 60 + 360)" "fl (dmul h1 60 + 360) \<le> fl 360"
      by (rule fl_mono, use h2 that in linarith)+
    then show ?thesis by (simp add: dadd_def)
  qed
  have "h = (if dmul h1 60 < 0 then dadd (dmul h1 60) 360 else dmul h1 60)"
    using False by (simp add: h_def h1_def Let_def)
  with h2 h3 show ?thesis by (cases "dmul h1 60 < 0") simp_all
qed

lemma hsl_of_bounds:
  assumes "0 \<le> r" "r \<le> 1" "0 \<le> g" "g \<le> 1" "0 \<le> b" "b \<le> 1"
    and "hsl_of r g b = (h, s, l)"
  shows "0 \<le> h \<and> h \<le> 360 \<and> 0 \<le> s \<and> s \<le> 100 \<and> 0 \<le> l \<and> l \<le> 100"
proof -
  let ?mx = "max r (max g b)" and ?mn = "min r (min g b)"
  have m: "0 \<le> ?mn" "?mn \<le> ?mx" "?mx \<le> 1" using assms(1-6) by auto
  have c: "?mn \<le> r" "r \<le> ?mx" "?mn \<le> g" "g \<le> ?mx" "?mn \<le> b" "b \<le> ?mx" by auto
  note H = hue_bounds [OF m c] and S = saturation_bounds [OF m] and L = lightness_bounds [OF m]
  from assms(7) have hh:
    "h = c_round (if dsub ?mx ?mn \<noteq> 0
               then (let h1 = (if ?mx = r then ddiv (dsub g b) (dsub ?mx ?mn)
                               else if ?mx = g then dadd 2 (ddiv (dsub b r) (dsub ?mx ?mn))
                               else dadd 4 (ddiv (dsub r g) (dsub ?mx ?mn)));
                         h2 = dmul h1 60
                     in if h2 < 0 then dadd h2 360 else h2)
               else 0)"
    and ss: "s = c_round (dmul (if dsub ?mx ?mn \<noteq> 0
               then (if ddiv (dadd ?mx ?mn) 2 < 1 / 2 then ddiv (dsub ?mx ?mn) (dadd ?mx ?mn)
                     else ddiv (dsub ?mx ?mn) (dsub (dsub 2 ?mx) ?mn))
               else 0) 100)"
    and ll: "l = c_round (dmul (ddiv (dadd ?mx ?mn) 2) 100)"
    unfolding hsl_of_def Let_def by simp_all
  have "0 \<le> h \<and> h \<le> 360"
    unfolding hh using H by (intro c_round_bounds) simp_all
  moreover have "0 \<le> s \<and> s \<le> 100"
    unfolding ss using S by (intro c_round_bounds) simp_all
  moreover have "0 \<le> l \<and> l \<le> 100"
    unfolding ll using L by (intro c_round_bounds) simp_all
  ultimately show ?thesis by simp
qed

subsection \<open>Digits and field widths\<close>

lemma dec_digits: "list_all is_digit (dec n)"
proof (induction n rule: dec.induct)
  case (1 n)
  have d: "is_digit (''0123456789'' ! k)" if "k < 10" for k
    unfolding is_digit_def by (rule nth_mem) (use that in simp)
  show ?case
  proof (cases "n < 10")
    case True
    then show ?thesis by (subst dec.simps) (simp add: d)
  next
    case False
    with 1 have "list_all is_digit (dec (n div 10))" by simp
    with False show ?thesis by (subst dec.simps) (simp add: d)
  qed
qed

lemma dec_nonempty: "dec n \<noteq> []"
  by (subst dec.simps) simp

lemma is_number_dec: "is_number (dec n)"
  by (simp add: is_number_def dec_digits dec_nonempty)

lemma length_dec_1: "n < 10 \<Longrightarrow> length (dec n) = 1"
  by (subst dec.simps) simp

lemma length_dec_2: "n < 100 \<Longrightarrow> length (dec n) \<le> 2"
  by (subst dec.simps) (simp add: length_dec_1)

lemma length_dec_3: "n < 1000 \<Longrightarrow> length (dec n) \<le> 3"
proof -
  assume "n < 1000"
  then have "length (dec (n div 10)) \<le> 2"
    by (intro length_dec_2) simp
  then show ?thesis by (subst dec.simps) (simp add: length_dec_1)
qed

lemma hex_upper_digits: "list_all is_hex_upper (hex_upper n)"
proof (induction n rule: hex_upper.induct)
  case (1 n)
  have d: "is_hex_upper (''0123456789ABCDEF'' ! k)" if "k < 16" for k
    unfolding is_hex_upper_def by (rule nth_mem) (use that in simp)
  show ?case
  proof (cases "n < 16")
    case True
    then show ?thesis by (subst hex_upper.simps) (simp add: d)
  next
    case False
    with 1 have "list_all is_hex_upper (hex_upper (n div 16))" by simp
    with False show ?thesis by (subst hex_upper.simps) (simp add: d)
  qed
qed

lemma hex_lower_digits: "list_all is_hex_lower (hex_lower n)"
proof (induction n rule: hex_lower.induct)
  case (1 n)
  have d: "is_hex_lower (''0123456789abcdef'' ! k)" if "k < 16" for k
    unfolding is_hex_lower_def by (rule nth_mem) (use that in simp)
  show ?case
  proof (cases "n < 16")
    case True
    then show ?thesis by (subst hex_lower.simps) (simp add: d)
  next
    case False
    with 1 have "list_all is_hex_lower (hex_lower (n div 16))" by simp
    with False show ?thesis by (subst hex_lower.simps) (simp add: d)
  qed
qed

lemma length_hex_upper: "n < 256 \<Longrightarrow> 1 \<le> length (hex_upper n) \<and> length (hex_upper n) \<le> 2"
proof -
  assume "n < 256"
  then have "n div 16 < 16" by simp
  then have "length (hex_upper (n div 16)) = 1"
    by (subst hex_upper.simps) simp
  then show ?thesis by (subst (1 2) hex_upper.simps) simp
qed

lemma length_hex_lower: "n < 256 \<Longrightarrow> 1 \<le> length (hex_lower n) \<and> length (hex_lower n) \<le> 2"
proof -
  assume "n < 256"
  then have "n div 16 < 16" by simp
  then have "length (hex_lower (n div 16)) = 1"
    by (subst hex_lower.simps) simp
  then show ?thesis by (subst (1 2) hex_lower.simps) simp
qed

lemma length_pad2: "length s \<le> 2 \<Longrightarrow> length (pad2 s) = 2"
  by (simp add: pad2_def)

lemma is_hex_upper_0: "is_hex_upper (CHR ''0'')" by (simp add: is_hex_upper_def)
lemma is_hex_lower_0: "is_hex_lower (CHR ''0'')" by (simp add: is_hex_lower_def)
lemma is_digit_0: "is_digit (CHR ''0'')" by (simp add: is_digit_def)

lemma fmt_02X_ok: "n < 256 \<Longrightarrow> length (fmt_02X n) = 2 \<and> list_all is_hex_upper (fmt_02X n)"
  using length_hex_upper [of n] hex_upper_digits [of n]
  by (simp add: fmt_02X_def length_pad2) (auto simp: pad2_def is_hex_upper_0 list_all_iff)

lemma fmt_02x_ok: "n < 256 \<Longrightarrow> length (fmt_02x n) = 2 \<and> list_all is_hex_lower (fmt_02x n)"
  using length_hex_lower [of n] hex_lower_digits [of n]
  by (simp add: fmt_02x_def length_pad2) (auto simp: pad2_def is_hex_lower_0 list_all_iff)

lemma is_digit_not_NUL: "is_digit c \<Longrightarrow> c \<noteq> NUL"
  by (auto simp: is_digit_def NUL_def)
lemma is_hex_upper_not_NUL: "is_hex_upper c \<Longrightarrow> c \<noteq> NUL"
  by (auto simp: is_hex_upper_def NUL_def)
lemma is_hex_lower_not_NUL: "is_hex_lower c \<Longrightarrow> c \<noteq> NUL"
  by (auto simp: is_hex_lower_def NUL_def)

lemma unat_and_255: "unat (w AND 0xFF) < 256" for w :: u32
proof -
  have "unat (w AND 0xFF) \<le> unat (0xFF :: u32)"
    by (rule word_and_le1 [THEN word_le_nat_alt [THEN iffD1]])
  then show ?thesis by simp
qed

lemma chan_bounds: "chan_r c < 256" "chan_g c < 256" "chan_b c < 256"
  unfolding chan_r_def chan_g_def chan_b_def by (rule unat_and_255)+

lemma format_color_snprintf: "format_color c f n = snprintf n (format_text c f)"
  by (simp add: format_color_def format_text_def Let_def snprintf_def split: prod.splits)

lemma snprintf_fits: "length s < n \<Longrightarrow> snprintf n s = s"
  by (simp add: snprintf_def)

lemma length_snprintf: "length (snprintf n s) \<le> length s"
  by (simp add: snprintf_def)

lemma fmt_u_ok: "n < 256 \<Longrightarrow> is_number (fmt_u n) \<and> length (fmt_u n) \<le> 3"
  using length_dec_3 [of n] by (simp add: fmt_u_def is_number_dec)

lemma fmt_d_ok: "0 \<le> i \<Longrightarrow> i \<le> 360 \<Longrightarrow> is_number (fmt_d i) \<and> length (fmt_d i) \<le> 3"
  using length_dec_3 [of "nat i"] by (simp add: fmt_d_def is_number_dec)

lemma is_fixed2I:
  assumes "is_number a" "length b = 2" "list_all is_digit b"
  shows "is_fixed2 (a @ ''.'' @ b)"
proof -
  have "length (a @ ''.'' @ b) - 3 = length a" using assms(2) by simp
  moreover have "length (a @ ''.'' @ b) - 2 = length a + 1" using assms(2) by simp
  ultimately show ?thesis
    unfolding is_fixed2_def using assms by (simp add: nth_append)
qed

lemma pad2_dec: "n < 100 \<Longrightarrow> length (pad2 (dec n)) = 2 \<and> list_all is_digit (pad2 (dec n))"
  using length_dec_2 [of n] dec_digits [of n]
  by (simp add: length_pad2) (auto simp: pad2_def is_digit_0 list_all_iff)

lemma fmt_2f_unit:
  assumes "0 \<le> v" "v \<le> 1"
  shows "length (fmt_2f v) = 4 \<and> is_fixed2 (fmt_2f v)"
proof -
  define n where "n = nat (round_half_even (\<bar>v\<bar> * 100))"
  have "0 \<le> round_half_even (\<bar>v\<bar> * 100)"
    by (rule rhe_ge_int) (use assms in simp)
  moreover have "round_half_even (\<bar>v\<bar> * 100) \<le> 100"
    by (rule rhe_le_int) (use assms in simp)
  ultimately have n: "n \<le> 100" by (simp add: n_def)
  then have a: "n div 100 < 10" and b: "n mod 100 < 100" by simp_all
  have eq: "fmt_2f v = dec (n div 100) @ ''.'' @ pad2 (dec (n mod 100))"
    using assms(1) by (simp add: fmt_2f_def Let_def n_def)
  have "is_fixed2 (fmt_2f v)"
    unfolding eq using pad2_dec [OF b] by (intro is_fixed2I) (simp_all add: is_number_dec)
  moreover have "length (fmt_2f v) = 4"
    unfolding eq using pad2_dec [OF b] length_dec_1 [OF a] by simp
  ultimately show ?thesis by simp
qed

lemma fmt_2f_norm255: "n < 256 \<Longrightarrow> length (fmt_2f (norm255 n)) = 4 \<and> is_fixed2 (fmt_2f (norm255 n))"
  using norm255_bounds [of n] by (intro fmt_2f_unit) simp_all

lemma hsl_fields:
  obtains h s l where "hsl_of (norm255 (chan_r c)) (norm255 (chan_g c)) (norm255 (chan_b c)) = (h, s, l)"
    "0 \<le> h" "h \<le> 360" "0 \<le> s" "s \<le> 100" "0 \<le> l" "l \<le> 100"
proof -
  obtain h s l where e: "hsl_of (norm255 (chan_r c)) (norm255 (chan_g c)) (norm255 (chan_b c)) = (h, s, l)"
    by (rule prod_cases3)
  have b: "0 \<le> norm255 (chan_r c) \<and> norm255 (chan_r c) \<le> 1"
    "0 \<le> norm255 (chan_g c) \<and> norm255 (chan_g c) \<le> 1"
    "0 \<le> norm255 (chan_b c) \<and> norm255 (chan_b c) \<le> 1"
    using chan_bounds [of c] by (simp_all add: norm255_bounds)
  from hsl_of_bounds [OF _ _ _ _ _ _ e] b that [OF e] show thesis by blast
qed

lemma length_format_text: "length (format_text c f) \<le> 32"
proof -
  note ch = chan_bounds [of c]
  note X = fmt_02X_ok [OF ch(1)] fmt_02X_ok [OF ch(2)] fmt_02X_ok [OF ch(3)]
  note x = fmt_02x_ok [OF ch(1)] fmt_02x_ok [OF ch(2)] fmt_02x_ok [OF ch(3)]
  note u = fmt_u_ok [OF ch(1)] fmt_u_ok [OF ch(2)] fmt_u_ok [OF ch(3)]
  note f = fmt_2f_norm255 [OF ch(1)] fmt_2f_norm255 [OF ch(2)] fmt_2f_norm255 [OF ch(3)]
  obtain h s l where hsl: "hsl_of (norm255 (chan_r c)) (norm255 (chan_g c)) (norm255 (chan_b c)) = (h, s, l)"
    "0 \<le> h" "h \<le> 360" "0 \<le> s" "s \<le> 100" "0 \<le> l" "l \<le> 100"
    by (rule hsl_fields)
  have d: "length (fmt_d h) \<le> 3" "length (fmt_d s) \<le> 3" "length (fmt_d l) \<le> 3"
    using hsl fmt_d_ok [of h] fmt_d_ok [of s] fmt_d_ok [of l] by simp_all
  show ?thesis
    unfolding format_text_def Let_def hsl using X x u f d by simp
qed

subsection \<open>The formats\<close>

lemma format_color_fits: "32 < n \<Longrightarrow> format_color c f n = format_text c f"
  using length_format_text [of c f] by (simp add: format_color_snprintf snprintf_fits)

lemma list_all_not_NUL:
  "list_all is_digit s \<Longrightarrow> NUL \<notin> set s"
  "list_all is_hex_upper s \<Longrightarrow> NUL \<notin> set s"
  "list_all is_hex_lower s \<Longrightarrow> NUL \<notin> set s"
  using is_digit_not_NUL is_hex_upper_not_NUL is_hex_lower_not_NUL
  by (auto simp: list_all_iff)

lemma is_number_not_NUL: "is_number s \<Longrightarrow> NUL \<notin> set s"
  by (simp add: is_number_def list_all_not_NUL)

lemma is_fixed2_not_NUL:
  assumes "is_fixed2 s"
  shows "NUL \<notin> set s"
proof -
  let ?k = "length s - 3"
  have len: "3 \<le> length s" using assms by (simp add: is_fixed2_def)
  then have "s = take ?k s @ (s ! ?k) # drop (Suc ?k) s"
    by (intro id_take_nth_drop) simp
  moreover have "Suc ?k = length s - 2" using len by simp
  ultimately have s: "s = take ?k s @ CHR ''.'' # drop (length s - 2) s"
    using assms by (simp add: is_fixed2_def)
  have "NUL \<notin> set (take ?k s)" "NUL \<notin> set (drop (length s - 2) s)"
    using assms by (simp_all add: is_fixed2_def is_number_not_NUL list_all_not_NUL)
  moreover have "CHR ''.'' \<noteq> NUL" by (simp add: NUL_def)
  ultimately have "NUL \<notin> set (take ?k s @ CHR ''.'' # drop (length s - 2) s)"
    by simp
  with s show ?thesis by simp
qed


lemma format_text_simps:
  "format_text c FORMAT_HTML_HEX = ''#'' @ fmt_02X (chan_r c) @ fmt_02X (chan_g c) @ fmt_02X (chan_b c)"
  "format_text c FORMAT_RAW_HEX = ''0x'' @ fmt_02x (chan_r c) @ fmt_02x (chan_g c) @ fmt_02x (chan_b c)"
  "format_text c FORMAT_CSS_RGB =
     ''rgb('' @ fmt_u (chan_r c) @ '', '' @ fmt_u (chan_g c) @ '', '' @ fmt_u (chan_b c) @ '');''"
  "format_text c FORMAT_CSS_RGBA =
     ''rgba('' @ fmt_u (chan_r c) @ '', '' @ fmt_u (chan_g c) @ '', '' @ fmt_u (chan_b c) @ '', 1);''"
  "format_text c FORMAT_HSL =
     ''hsl('' @ fmt_d (fst (hsl_of (norm255 (chan_r c)) (norm255 (chan_g c)) (norm255 (chan_b c)))) @ '', ''
       @ fmt_d (fst (snd (hsl_of (norm255 (chan_r c)) (norm255 (chan_g c)) (norm255 (chan_b c))))) @ ''%, ''
       @ fmt_d (snd (snd (hsl_of (norm255 (chan_r c)) (norm255 (chan_g c)) (norm255 (chan_b c))))) @ ''%);''"
  "format_text c FORMAT_FLOAT =
     fmt_2f (norm255 (chan_r c)) @ ''f, '' @ fmt_2f (norm255 (chan_g c)) @ ''f, ''
       @ fmt_2f (norm255 (chan_b c)) @ ''f''"
  "format_text c FORMAT_VEC3 =
     ''vec3('' @ fmt_2f (norm255 (chan_r c)) @ ''f, '' @ fmt_2f (norm255 (chan_g c)) @ ''f, ''
       @ fmt_2f (norm255 (chan_b c)) @ ''f)''"
  "format_text c FORMAT_VEC4 =
     ''vec4('' @ fmt_2f (norm255 (chan_r c)) @ ''f, '' @ fmt_2f (norm255 (chan_g c)) @ ''f, ''
       @ fmt_2f (norm255 (chan_b c)) @ ''f, 1.00f)''"
  by (simp_all add: format_text_def Let_def FORMAT_defs)

lemma format_text_other:
  "f \<notin> {FORMAT_HTML_HEX, FORMAT_RAW_HEX, FORMAT_CSS_RGB, FORMAT_CSS_RGBA, FORMAT_HSL, FORMAT_FLOAT,
          FORMAT_VEC3, FORMAT_VEC4} \<Longrightarrow> format_text c f = []"
  by (simp add: format_text_def Let_def)

lemma format_text_no_NUL: "NUL \<notin> set (format_text c f)"
proof -
  note ch = chan_bounds [of c]
  have X: "NUL \<notin> set (fmt_02X (chan_r c))" "NUL \<notin> set (fmt_02X (chan_g c))"
    "NUL \<notin> set (fmt_02X (chan_b c))"
    using fmt_02X_ok [OF ch(1)] fmt_02X_ok [OF ch(2)] fmt_02X_ok [OF ch(3)]
    by (simp_all add: list_all_not_NUL)
  have x: "NUL \<notin> set (fmt_02x (chan_r c))" "NUL \<notin> set (fmt_02x (chan_g c))"
    "NUL \<notin> set (fmt_02x (chan_b c))"
    using fmt_02x_ok [OF ch(1)] fmt_02x_ok [OF ch(2)] fmt_02x_ok [OF ch(3)]
    by (simp_all add: list_all_not_NUL)
  have u: "NUL \<notin> set (fmt_u (chan_r c))" "NUL \<notin> set (fmt_u (chan_g c))"
    "NUL \<notin> set (fmt_u (chan_b c))"
    using fmt_u_ok [OF ch(1)] fmt_u_ok [OF ch(2)] fmt_u_ok [OF ch(3)]
    by (simp_all add: is_number_not_NUL)
  have f: "NUL \<notin> set (fmt_2f (norm255 (chan_r c)))" "NUL \<notin> set (fmt_2f (norm255 (chan_g c)))"
    "NUL \<notin> set (fmt_2f (norm255 (chan_b c)))"
    using fmt_2f_norm255 [OF ch(1)] fmt_2f_norm255 [OF ch(2)] fmt_2f_norm255 [OF ch(3)]
    by (simp_all add: is_fixed2_not_NUL)
  obtain h s l where hsl: "hsl_of (norm255 (chan_r c)) (norm255 (chan_g c)) (norm255 (chan_b c)) = (h, s, l)"
    "0 \<le> h" "h \<le> 360" "0 \<le> s" "s \<le> 100" "0 \<le> l" "l \<le> 100"
    by (rule hsl_fields)
  have d: "NUL \<notin> set (fmt_d h)" "NUL \<notin> set (fmt_d s)" "NUL \<notin> set (fmt_d l)"
    using hsl fmt_d_ok [of h] fmt_d_ok [of s] fmt_d_ok [of l] by (simp_all add: is_number_not_NUL)
  have lit: "CHR ''#'' \<noteq> NUL" "CHR ''0'' \<noteq> NUL" "CHR ''x'' \<noteq> NUL" "CHR ''r'' \<noteq> NUL"
    "CHR ''g'' \<noteq> NUL" "CHR ''b'' \<noteq> NUL" "CHR ''a'' \<noteq> NUL" "CHR ''('' \<noteq> NUL"
    "CHR '')'' \<noteq> NUL" "CHR '','' \<noteq> NUL" "CHR '' '' \<noteq> NUL" "CHR '';'' \<noteq> NUL"
    "CHR ''1'' \<noteq> NUL" "CHR ''h'' \<noteq> NUL" "CHR ''s'' \<noteq> NUL" "CHR ''l'' \<noteq> NUL"
    "CHR ''%'' \<noteq> NUL" "CHR ''f'' \<noteq> NUL" "CHR ''v'' \<noteq> NUL" "CHR ''e'' \<noteq> NUL"
    "CHR ''c'' \<noteq> NUL" "CHR ''3'' \<noteq> NUL" "CHR ''4'' \<noteq> NUL" "CHR ''.'' \<noteq> NUL"
    by (simp_all add: NUL_def)
  consider "f = FORMAT_HTML_HEX" | "f = FORMAT_RAW_HEX" | "f = FORMAT_CSS_RGB"
    | "f = FORMAT_CSS_RGBA" | "f = FORMAT_HSL" | "f = FORMAT_FLOAT" | "f = FORMAT_VEC3"
    | "f = FORMAT_VEC4"
    | "f \<notin> {FORMAT_HTML_HEX, FORMAT_RAW_HEX, FORMAT_CSS_RGB, FORMAT_CSS_RGBA, FORMAT_HSL,
          FORMAT_FLOAT, FORMAT_VEC3, FORMAT_VEC4}"
    by blast
  then show ?thesis
    using X x u f d lit
    by cases (simp_all add: format_text_simps format_text_other hsl)
qed

lemma format_color_no_NUL: "NUL \<notin> set (format_color c f n)"
  using format_text_no_NUL [of c f] by (auto simp: format_color_snprintf snprintf_def dest: in_set_takeD)


lemma c_round_0 [simp]: "c_round 0 = 0"
proof -
  have "\<lfloor>1 / 2 :: rat\<rfloor> = 0" by (rule floor_unique) simp_all
  then show ?thesis by (simp add: c_round_def)
qed

lemma c_round_nearest: "\<bar>of_int (c_round x) - x\<bar> \<le> 1 / 2"
proof (cases "0 \<le> x")
  case True
  then have "c_round x = \<lfloor>x + 1 / 2\<rfloor>" by (simp add: c_round_def)
  then show ?thesis by linarith
next
  case False
  then have "c_round x = - \<lfloor>- x + 1 / 2\<rfloor>" by (simp add: c_round_def)
  then show ?thesis by linarith
qed

text \<open>
  Claim C6. With a buffer of more than 32 bytes, every colour is formatted to a text of the
  shape of its format: \<open>#\<close> and six upper-case hexadecimal digits, \<open>0x\<close> and six lower-case
  ones, decimal numbers in \<open>rgb(..);\<close>, \<open>rgba(.., 1);\<close> and \<open>hsl(.., ..%, ..%);\<close>, numbers
  with two fractional digits followed by \<open>f\<close> in the three float formats. The text is not
  empty for the eight formats and empty for every other value of the format. (The text is a
  function of the colour and the format, so it is determined by them.)
\<close>

theorem format_color_grammar:
  assumes "32 < buf_size"
  shows
    "(\<exists>d. format_color c FORMAT_HTML_HEX buf_size = ''#'' @ d \<and> length d = 6 \<and>
          list_all is_hex_upper d) \<and>
     (\<exists>d. format_color c FORMAT_RAW_HEX buf_size = ''0x'' @ d \<and> length d = 6 \<and>
          list_all is_hex_lower d) \<and>
     (\<exists>r g b. format_color c FORMAT_CSS_RGB buf_size = ''rgb('' @ r @ '', '' @ g @ '', '' @ b @ '');''
          \<and> is_number r \<and> is_number g \<and> is_number b) \<and>
     (\<exists>r g b. format_color c FORMAT_CSS_RGBA buf_size =
            ''rgba('' @ r @ '', '' @ g @ '', '' @ b @ '', 1);''
          \<and> is_number r \<and> is_number g \<and> is_number b) \<and>
     (\<exists>h s l. format_color c FORMAT_HSL buf_size = ''hsl('' @ h @ '', '' @ s @ ''%, '' @ l @ ''%);''
          \<and> is_number h \<and> is_number s \<and> is_number l) \<and>
     (\<exists>r g b. format_color c FORMAT_FLOAT buf_size = r @ ''f, '' @ g @ ''f, '' @ b @ ''f''
          \<and> is_fixed2 r \<and> is_fixed2 g \<and> is_fixed2 b) \<and>
     (\<exists>r g b. format_color c FORMAT_VEC3 buf_size = ''vec3('' @ r @ ''f, '' @ g @ ''f, '' @ b @ ''f)''
          \<and> is_fixed2 r \<and> is_fixed2 g \<and> is_fixed2 b) \<and>
     (\<exists>r g b. format_color c FORMAT_VEC4 buf_size =
            ''vec4('' @ r @ ''f, '' @ g @ ''f, '' @ b @ ''f, 1.00f)''
          \<and> is_fixed2 r \<and> is_fixed2 g \<and> is_fixed2 b) \<and>
     (f \<in> {FORMAT_HTML_HEX, FORMAT_RAW_HEX, FORMAT_CSS_RGB, FORMAT_CSS_RGBA, FORMAT_HSL,
            FORMAT_FLOAT, FORMAT_VEC3, FORMAT_VEC4} \<longrightarrow> format_color c f buf_size \<noteq> []) \<and>
     (f \<notin> {FORMAT_HTML_HEX, FORMAT_RAW_HEX, FORMAT_CSS_RGB, FORMAT_CSS_RGBA, FORMAT_HSL,
            FORMAT_FLOAT, FORMAT_VEC3, FORMAT_VEC4} \<longrightarrow> format_color c f buf_size = [])"
proof -
  note ch = chan_bounds [of c]
  note fits = format_color_fits [OF assms]
  have hex_upper: "\<exists>d. format_color c FORMAT_HTML_HEX buf_size = ''#'' @ d \<and> length d = 6 \<and>
          list_all is_hex_upper d"
    unfolding fits format_text_simps
    using fmt_02X_ok [OF ch(1)] fmt_02X_ok [OF ch(2)] fmt_02X_ok [OF ch(3)]
    by (intro exI [of _ "fmt_02X (chan_r c) @ fmt_02X (chan_g c) @ fmt_02X (chan_b c)"]) simp
  have hex_lower: "\<exists>d. format_color c FORMAT_RAW_HEX buf_size = ''0x'' @ d \<and> length d = 6 \<and>
          list_all is_hex_lower d"
    unfolding fits format_text_simps
    using fmt_02x_ok [OF ch(1)] fmt_02x_ok [OF ch(2)] fmt_02x_ok [OF ch(3)]
    by (intro exI [of _ "fmt_02x (chan_r c) @ fmt_02x (chan_g c) @ fmt_02x (chan_b c)"]) simp
  have u: "is_number (fmt_u (chan_r c))" "is_number (fmt_u (chan_g c))"
    "is_number (fmt_u (chan_b c))"
    using fmt_u_ok [OF ch(1)] fmt_u_ok [OF ch(2)] fmt_u_ok [OF ch(3)] by simp_all
  have rgb: "\<exists>r g b. format_color c FORMAT_CSS_RGB buf_size =
      ''rgb('' @ r @ '', '' @ g @ '', '' @ b @ '');'' \<and> is_number r \<and> is_number g \<and> is_number b"
    unfolding fits format_text_simps using u by blast
  have rgba: "\<exists>r g b. format_color c FORMAT_CSS_RGBA buf_size =
      ''rgba('' @ r @ '', '' @ g @ '', '' @ b @ '', 1);'' \<and> is_number r \<and> is_number g \<and> is_number b"
    unfolding fits format_text_simps using u by blast
  obtain h s l where hsl: "hsl_of (norm255 (chan_r c)) (norm255 (chan_g c)) (norm255 (chan_b c)) = (h, s, l)"
    "0 \<le> h" "h \<le> 360" "0 \<le> s" "s \<le> 100" "0 \<le> l" "l \<le> 100"
    by (rule hsl_fields)
  have d: "is_number (fmt_d h)" "is_number (fmt_d s)" "is_number (fmt_d l)"
    using hsl fmt_d_ok [of h] fmt_d_ok [of s] fmt_d_ok [of l] by simp_all
  have hsl': "\<exists>h s l. format_color c FORMAT_HSL buf_size =
      ''hsl('' @ h @ '', '' @ s @ ''%, '' @ l @ ''%);'' \<and> is_number h \<and> is_number s \<and> is_number l"
    unfolding fits format_text_simps hsl fst_conv snd_conv using d by blast
  have f2: "is_fixed2 (fmt_2f (norm255 (chan_r c)))" "is_fixed2 (fmt_2f (norm255 (chan_g c)))"
    "is_fixed2 (fmt_2f (norm255 (chan_b c)))"
    using fmt_2f_norm255 [OF ch(1)] fmt_2f_norm255 [OF ch(2)] fmt_2f_norm255 [OF ch(3)]
    by simp_all
  have flt: "\<exists>r g b. format_color c FORMAT_FLOAT buf_size = r @ ''f, '' @ g @ ''f, '' @ b @ ''f''
          \<and> is_fixed2 r \<and> is_fixed2 g \<and> is_fixed2 b"
    unfolding fits format_text_simps using f2 by blast
  have vec3: "\<exists>r g b. format_color c FORMAT_VEC3 buf_size =
      ''vec3('' @ r @ ''f, '' @ g @ ''f, '' @ b @ ''f)'' \<and> is_fixed2 r \<and> is_fixed2 g \<and> is_fixed2 b"
    unfolding fits format_text_simps using f2 by blast
  have vec4: "\<exists>r g b. format_color c FORMAT_VEC4 buf_size =
      ''vec4('' @ r @ ''f, '' @ g @ ''f, '' @ b @ ''f, 1.00f)''
          \<and> is_fixed2 r \<and> is_fixed2 g \<and> is_fixed2 b"
    unfolding fits format_text_simps using f2 by blast
  have nonempty: "f \<in> {FORMAT_HTML_HEX, FORMAT_RAW_HEX, FORMAT_CSS_RGB, FORMAT_CSS_RGBA, FORMAT_HSL,
            FORMAT_FLOAT, FORMAT_VEC3, FORMAT_VEC4} \<longrightarrow> format_color c f buf_size \<noteq> []"
    unfolding fits by (auto simp: format_text_simps)
  have other: "f \<notin> {FORMAT_HTML_HEX, FORMAT_RAW_HEX, FORMAT_CSS_RGB, FORMAT_CSS_RGBA, FORMAT_HSL,
            FORMAT_FLOAT, FORMAT_VEC3, FORMAT_VEC4} \<longrightarrow> format_color c f buf_size = []"
    unfolding fits using format_text_other [of f c] by blast
  from hex_upper hex_lower rgb rgba hsl' flt vec3 vec4 nonempty other show ?thesis
    by (intro conjI)
qed

theorem format_color_grammar_witness:
  "(32 :: nat) < 64 \<and> format_color 0xB48EAD FORMAT_VEC4 64 \<noteq> [] \<and>
   format_color 0xB48EAD FORMAT_COUNT 64 = []"
  using format_color_grammar [of 64 "0xB48EAD" FORMAT_VEC4]
    format_color_grammar [of 64 "0xB48EAD" FORMAT_COUNT]
  by (simp add: FORMAT_defs)


subsection \<open>The HSL conversion against exact arithmetic\<close>

text \<open>One operation on doubles of magnitude at most 512 is off by at most \<open>2\<^sup>-\<^sup>4\<^sup>4\<close>.\<close>

lemma fl_err_pos:
  fixes x :: rat
  assumes "0 < x"
  shows "\<bar>fl x - x\<bar> \<le> x / 2 ^ 53"
proof -
  define u :: rat where "u = 2 powi (expo x - 52)"
  have u: "0 < u" by (simp add: u_def)
  have f: "fl x = of_int (round_half_even (x / u)) * u"
    using assms by (simp add: fl_pos_eq u_def)
  have "\<bar>of_int (round_half_even (x / u)) - x / u\<bar> \<le> 1 / 2"
    using rhe_lower [of "x / u"] rhe_upper [of "x / u"] by linarith
  then have "\<bar>of_int (round_half_even (x / u)) - x / u\<bar> * u \<le> 1 / 2 * u"
    using u by (intro mult_right_mono) simp_all
  moreover have "\<bar>of_int (round_half_even (x / u)) - x / u\<bar> * u = \<bar>fl x - x\<bar>"
  proof -
    have "\<bar>of_int (round_half_even (x / u)) - x / u\<bar> * u =
          \<bar>(of_int (round_half_even (x / u)) - x / u) * u\<bar>"
      using u by (simp add: abs_mult)
    also have "(of_int (round_half_even (x / u)) - x / u) * u = fl x - x"
      using u by (simp add: f field_simps)
    finally show ?thesis .
  qed
  ultimately have 1: "\<bar>fl x - x\<bar> \<le> u / 2" by simp
  have "2 ^ 52 \<le> x / u" using scaled_bounds(1) [OF assms] by (simp add: u_def)
  then have "2 ^ 52 * u \<le> x" using u by (simp add: field_simps)
  then have "u / 2 \<le> x / 2 ^ 53" by simp
  with 1 show ?thesis by linarith
qed

lemma fl_err: "\<bar>fl x - x\<bar> \<le> \<bar>x\<bar> / 2 ^ 53"
proof -
  consider "x = 0" | "0 < x" | "x < 0" by linarith
  then show ?thesis
  proof cases
    case 1
    then show ?thesis by simp
  next
    case 2
    then show ?thesis using fl_err_pos [of x] by simp
  next
    case 3
    then show ?thesis using fl_err_pos [of "- x"] by (simp add: fl_minus)
  qed
qed


lemma fl_close:
  fixes x y a b :: rat
  assumes "\<bar>y - x\<bar> \<le> a" "\<bar>x\<bar> \<le> 500" "a \<le> 1" "a + 1 / 2 ^ 44 \<le> b"
  shows "\<bar>fl y - x\<bar> \<le> b"
proof -
  have "\<bar>y\<bar> \<le> 512" using assms(1-3) by linarith
  then have "\<bar>y\<bar> / 2 ^ 53 \<le> 512 / 2 ^ 53" by (rule divide_right_mono) simp
  also have "\<dots> = 1 / 2 ^ 44" by simp
  finally have "\<bar>fl y - y\<bar> \<le> 1 / 2 ^ 44" using fl_err [of y] by linarith
  with assms(1,4) show ?thesis by linarith
qed

lemma fl_neg_iff: "fl x < 0 \<longleftrightarrow> x < 0"
proof
  assume "fl x < 0"
  then show "x < 0" using fl_nonneg [of x] by (cases "0 \<le> x") simp_all
next
  assume "x < 0"
  then have "fl x \<le> 0" "fl x \<noteq> 0" using fl_nonpos [of x] by (simp_all add: fl_zero_iff)
  then show "fl x < 0" by simp
qed

text \<open>The normalised channels.\<close>

lemma unit_close:
  fixes R :: int
  assumes "0 \<le> R" "R \<le> 255"
  shows "\<bar>fl (of_int R / 255) - of_int R / 255\<bar> \<le> 1 / 2 ^ 44"
proof -
  have "0 \<le> (of_int R :: rat)" "(of_int R :: rat) \<le> 255" using assms by simp_all
  then have "\<bar>of_int R / 255 :: rat\<bar> \<le> 500" by simp
  then show ?thesis by (intro fl_close [where a = 0]) simp_all
qed

lemma unit_less:
  fixes R R' :: int
  assumes "0 \<le> R" "R < R'" "R' \<le> 255"
  shows "fl (of_int R / 255) < fl (of_int R' / 255)"
proof -
  define E :: rat where "E = 1 / 2 ^ 44"
  have E: "E < 1 / 510" by (simp add: E_def)
  have "R + 1 \<le> R'" using assms(2) by simp
  then have "(of_int (R + 1) :: rat) \<le> of_int R'" by (simp only: of_int_le_iff)
  then have "(of_int R :: rat) + 1 \<le> of_int R'" by simp
  then have 1: "(of_int R :: rat) / 255 + 1 / 255 \<le> of_int R' / 255" by simp
  have "\<bar>fl (of_int R / 255) - of_int R / 255\<bar> \<le> E"
    "\<bar>fl (of_int R' / 255) - of_int R' / 255\<bar> \<le> E"
    unfolding E_def using assms by (simp_all add: unit_close del: power_numeral)
  then have "fl (of_int R / 255) \<le> of_int R / 255 + E" "of_int R' / 255 - E \<le> fl (of_int R' / 255)"
    by linarith+
  with 1 E show ?thesis by linarith
qed

lemma unit_less_iff:
  fixes R R' :: int
  assumes "0 \<le> R" "R \<le> 255" "0 \<le> R'" "R' \<le> 255"
  shows "fl (of_int R / 255) < fl (of_int R' / 255) \<longleftrightarrow> R < R'"
proof
  assume "R < R'"
  then show "fl (of_int R / 255) < fl (of_int R' / 255)" using assms by (intro unit_less)
next
  assume l: "fl (of_int R / 255) < fl (of_int R' / 255)"
  show "R < R'"
  proof (rule ccontr)
    assume "\<not> R < R'"
    then have "(of_int R' :: rat) / 255 \<le> of_int R / 255" by simp
    then have "fl (of_int R' / 255) \<le> fl (of_int R / 255)" by (rule fl_mono)
    with l show False by simp
  qed
qed

lemma unit_eq_iff:
  fixes R R' :: int
  assumes "0 \<le> R" "R \<le> 255" "0 \<le> R'" "R' \<le> 255"
  shows "fl (of_int R / 255) = fl (of_int R' / 255) \<longleftrightarrow> R = R'"
proof
  assume e: "fl (of_int R / 255) = fl (of_int R' / 255)"
  show "R = R'"
  proof (rule ccontr)
    assume "R \<noteq> R'"
    then consider "R < R'" | "R' < R" by linarith
    then show False
    proof cases
      case 1
      then have "fl (of_int R / 255) < fl (of_int R' / 255)" using assms by (intro unit_less)
      with e show False by simp
    next
      case 2
      then have "fl (of_int R' / 255) < fl (of_int R / 255)" using assms by (intro unit_less)
      with e show False by simp
    qed
  qed
next
  assume "R = R'"
  then show "fl (of_int R / 255) = fl (of_int R' / 255)" by simp
qed

lemma unit_max:
  fixes R R' :: int
  shows "max (fl (of_int R / 255)) (fl (of_int R' / 255)) = fl (of_int (max R R') / 255)"
proof (cases "R \<le> R'")
  case True
  then have "(of_int R :: rat) / 255 \<le> of_int R' / 255" by simp
  then have "fl (of_int R / 255) \<le> fl (of_int R' / 255)" by (rule fl_mono)
  with True show ?thesis by (simp add: max_def)
next
  case False
  then have "(of_int R' :: rat) / 255 \<le> of_int R / 255" by simp
  then have "fl (of_int R' / 255) \<le> fl (of_int R / 255)" by (rule fl_mono)
  with False show ?thesis by (auto simp: max_def)
qed

lemma unit_min:
  fixes R R' :: int
  shows "min (fl (of_int R / 255)) (fl (of_int R' / 255)) = fl (of_int (min R R') / 255)"
proof (cases "R \<le> R'")
  case True
  then have "(of_int R :: rat) / 255 \<le> of_int R' / 255" by simp
  then have "fl (of_int R / 255) \<le> fl (of_int R' / 255)" by (rule fl_mono)
  with True show ?thesis by (simp add: min_def)
next
  case False
  then have "(of_int R' :: rat) / 255 \<le> of_int R / 255" by simp
  then have "fl (of_int R' / 255) \<le> fl (of_int R / 255)" by (rule fl_mono)
  with False show ?thesis by (auto simp: min_def)
qed

lemma exact_max:
  fixes R R' :: int
  shows "max (of_int R / 255 :: rat) (of_int R' / 255) = of_int (max R R') / 255"
  by (simp add: max_def)

lemma exact_min:
  fixes R R' :: int
  shows "min (of_int R / 255 :: rat) (of_int R' / 255) = of_int (min R R') / 255"
  by (simp add: min_def)

text \<open>Rounding a double that is close to a fraction with a small denominator.\<close>

lemma round_grid:
  fixes v :: rat and p q :: int
  assumes "\<bar>v - of_int p / of_int q\<bar> \<le> e" "0 < q" "2 * of_int q * e < 1"
  shows "\<bar>of_int (c_round v) - of_int p / of_int q :: rat\<bar> \<le> 1 / 2"
proof -
  define K where "K = c_round v"
  define Z where "Z = \<bar>2 * q * K - 2 * p\<bar>"
  define d :: rat where "d = \<bar>of_int K - of_int p / of_int q\<bar>"
  have q: "0 < (of_int q :: rat)" using assms(2) by simp
  have "\<bar>of_int K - v\<bar> \<le> 1 / 2" unfolding K_def by (rule c_round_nearest)
  with assms(1) have 1: "d \<le> 1 / 2 + e" unfolding d_def by linarith
  have 2: "of_int Z = 2 * of_int q * d"
  proof -
    have "(of_int (2 * q * K - 2 * p) :: rat) = 2 * of_int q * (of_int K - of_int p / of_int q)"
      using q by (simp add: field_simps)
    then have "\<bar>of_int (2 * q * K - 2 * p) :: rat\<bar> = \<bar>2 * of_int q * (of_int K - of_int p / of_int q)\<bar>"
      by (rule arg_cong)
    also have "\<dots> = 2 * of_int q * \<bar>of_int K - of_int p / of_int q\<bar>"
      using q by (simp add: abs_mult)
    finally show ?thesis unfolding Z_def d_def by (simp only: of_int_abs)
  qed
  have "2 * of_int q * d \<le> 2 * of_int q * (1 / 2 + e)"
    using 1 q by (intro mult_left_mono) simp_all
  also have "\<dots> = of_int q + 2 * of_int q * e" by (simp add: field_simps)
  also have "\<dots> < of_int q + 1" using assms(3) by simp
  finally have "(of_int Z :: rat) < of_int (q + 1)" by (simp only: 2 of_int_add of_int_1)
  then have "Z < q + 1" by (simp only: of_int_less_iff)
  then have "Z \<le> q" by simp
  then have "(of_int Z :: rat) \<le> of_int q" by (simp only: of_int_le_iff)
  then have "2 * of_int q * d \<le> of_int q" by (simp only: 2)
  then have "d \<le> 1 / 2" using q by simp
  then show ?thesis by (simp add: K_def d_def)
qed

text \<open>A quotient of two doubles that are close to exact values.\<close>

lemma div_close:
  fixes x y x' y' a b :: rat
  assumes "\<bar>x' - x\<bar> \<le> a" "\<bar>y' - y\<bar> \<le> b" "\<bar>x\<bar> \<le> y" "1 / 255 \<le> y" "b \<le> 1 / 65280"
  shows "\<bar>x' / y' - x / y\<bar> \<le> 256 * (a + b)"
proof -
  have y: "0 < y" using assms(4) by linarith
  have y': "1 / 256 \<le> y'" using assms(2,4,5) by linarith
  then have p: "0 < y'" by linarith
  have a: "0 \<le> a" and b: "0 \<le> b" using assms(1,2) by linarith+
  have "\<bar>x / y\<bar> \<le> 1" using assms(3) y by (simp add: field_simps)
  then have "\<bar>x / y\<bar> * \<bar>y - y'\<bar> \<le> 1 * b"
    using assms(2) by (intro mult_mono) simp_all
  then have 1: "\<bar>(x / y) * (y - y')\<bar> \<le> b" by (simp add: abs_mult)
  have "x' / y' - x / y = ((x' - x) + (x / y) * (y - y')) / y'"
    using y p by (simp add: field_simps)
  then have "\<bar>x' / y' - x / y\<bar> = \<bar>(x' - x) + (x / y) * (y - y')\<bar> / y'"
    using p by simp
  also have "\<dots> \<le> (a + b) / y'"
    using assms(1) 1 p by (intro divide_right_mono) linarith+
  also have "\<dots> \<le> (a + b) / (1 / 256)"
    using a b y' by (intro divide_left_mono) simp_all
  finally show ?thesis by simp
qed

text \<open>The error of the doubles of the HSL conversion.\<close>

lemma sub_close:
  fixes a c XA XC :: rat
  assumes "\<bar>a - XA\<bar> \<le> 1 / 2 ^ 44" "\<bar>c - XC\<bar> \<le> 1 / 2 ^ 44" "\<bar>XA\<bar> \<le> 2" "\<bar>XC\<bar> \<le> 2"
  shows "\<bar>dsub a c - (XA - XC)\<bar> \<le> 3 / 2 ^ 44"
proof -
  define E :: rat where "E = 1 / 2 ^ 44"
  have E: "0 < E" "E \<le> 1 / 1000000000" by (simp_all add: E_def)
  note flE = fl_close [folded E_def]
  have 1: "\<bar>a - XA\<bar> \<le> E" "\<bar>c - XC\<bar> \<le> E" using assms(1,2) by (simp_all only: E_def)
  have "\<bar>fl (a - c) - (XA - XC)\<bar> \<le> 3 * E"
    by (rule flE [where a = "2 * E"]) (use 1 E assms(3,4) in \<open>simp_all add: abs_le_iff add_divide_distrib\<close>)
  then show ?thesis by (simp add: E_def dsub_def)
qed

lemma light_close:
  fixes mx mn XM Xm :: rat
  assumes "\<bar>mx - XM\<bar> \<le> 1 / 2 ^ 44" "\<bar>mn - Xm\<bar> \<le> 1 / 2 ^ 44" "0 \<le> Xm" "Xm \<le> XM" "XM \<le> 1"
  shows "\<bar>dadd mx mn - (XM + Xm)\<bar> \<le> 3 / 2 ^ 44"
    and "\<bar>ddiv (dadd mx mn) 2 - (XM + Xm) / 2\<bar> \<le> 3 / 2 ^ 44"
    and "\<bar>dmul (ddiv (dadd mx mn) 2) 100 - 100 * ((XM + Xm) / 2)\<bar> \<le> 301 / 2 ^ 44"
proof -
  define E :: rat where "E = 1 / 2 ^ 44"
  have E: "0 < E" "E \<le> 1 / 1000000000" by (simp_all add: E_def)
  note flE = fl_close [folded E_def]
  have 1: "\<bar>mx - XM\<bar> \<le> E" "\<bar>mn - Xm\<bar> \<le> E" using assms(1,2) by (simp_all only: E_def)
  define sm where "sm = fl (mx + mn)"
  define l where "l = fl (sm / 2)"
  have 2: "\<bar>sm - (XM + Xm)\<bar> \<le> 3 * E"
    unfolding sm_def by (rule flE [where a = "2 * E"]) (use 1 E assms(3-5) in \<open>simp_all add: abs_le_iff add_divide_distrib\<close>)
  have 3: "\<bar>l - (XM + Xm) / 2\<bar> \<le> 3 * E"
    unfolding l_def by (rule flE [where a = "2 * E"]) (use 2 E assms(3-5) in \<open>simp_all add: abs_le_iff add_divide_distrib\<close>)
  have 4: "\<bar>fl (l * 100) - 100 * ((XM + Xm) / 2)\<bar> \<le> 301 * E"
    by (rule flE [where a = "300 * E"]) (use 3 E assms(3-5) in \<open>simp_all add: abs_le_iff add_divide_distrib\<close>)
  show "\<bar>dadd mx mn - (XM + Xm)\<bar> \<le> 3 / 2 ^ 44"
    using 2 by (simp add: E_def dadd_def sm_def)
  show "\<bar>ddiv (dadd mx mn) 2 - (XM + Xm) / 2\<bar> \<le> 3 / 2 ^ 44"
    using 3 by (simp add: E_def dadd_def ddiv_def sm_def l_def)
  show "\<bar>dmul (ddiv (dadd mx mn) 2) 100 - 100 * ((XM + Xm) / 2)\<bar> \<le> 301 / 2 ^ 44"
    using 4 by (simp add: E_def dadd_def ddiv_def dmul_def sm_def l_def)
qed

lemma quot_close:
  fixes x y X Y :: rat
  assumes "\<bar>x - X\<bar> \<le> 3 / 2 ^ 44" "\<bar>y - Y\<bar> \<le> 4 / 2 ^ 44" "\<bar>X\<bar> \<le> Y" "1 / 255 \<le> Y"
  shows "\<bar>ddiv x y - X / Y\<bar> \<le> 1793 / 2 ^ 44"
    and "\<bar>dmul (ddiv x y) 100 - 100 * (X / Y)\<bar> \<le> 179301 / 2 ^ 44"
proof -
  define E :: rat where "E = 1 / 2 ^ 44"
  have E: "0 < E" "E \<le> 1 / 1000000000" by (simp_all add: E_def)
  note flE = fl_close [folded E_def]
  have 1: "\<bar>x - X\<bar> \<le> 3 * E" "\<bar>y - Y\<bar> \<le> 4 * E" using assms(1,2) by (simp_all add: E_def)
  have "0 < Y" using assms(4) by linarith
  then have r: "\<bar>X / Y\<bar> \<le> 1" using assms(3) by (simp add: field_simps)
  define q where "q = fl (x / y)"
  have "\<bar>x / y - X / Y\<bar> \<le> 256 * (3 * E + 4 * E)"
    using 1 assms(3,4) by (rule div_close) (use E in linarith)
  then have 2: "\<bar>x / y - X / Y\<bar> \<le> 1792 * E" by simp
  have 3: "\<bar>q - X / Y\<bar> \<le> 1793 * E"
    unfolding q_def by (rule flE [where a = "1792 * E"]) (use 2 r E in \<open>simp_all add: abs_le_iff add_divide_distrib\<close>)
  have 4: "\<bar>fl (q * 100) - 100 * (X / Y)\<bar> \<le> 179301 * E"
    by (rule flE [where a = "179300 * E"]) (use 3 r E in \<open>simp_all add: abs_le_iff add_divide_distrib\<close>)
  show "\<bar>ddiv x y - X / Y\<bar> \<le> 1793 / 2 ^ 44"
    using 3 by (simp add: E_def ddiv_def q_def)
  show "\<bar>dmul (ddiv x y) 100 - 100 * (X / Y)\<bar> \<le> 179301 / 2 ^ 44"
    using 4 by (simp add: E_def ddiv_def dmul_def q_def)
qed

lemma hue_close:
  fixes q Q :: rat
  assumes "\<bar>q - Q\<bar> \<le> 1793 / 2 ^ 44" "\<bar>Q\<bar> \<le> 1"
  shows "\<bar>dmul q 60 - 60 * Q\<bar> \<le> 200000 / 2 ^ 44"
    and "\<bar>dadd (dmul q 60) 360 - (60 * Q + 360)\<bar> \<le> 200000 / 2 ^ 44"
    and "\<bar>dmul (dadd 2 q) 60 - 60 * (2 + Q)\<bar> \<le> 200000 / 2 ^ 44"
    and "\<bar>dmul (dadd 4 q) 60 - 60 * (4 + Q)\<bar> \<le> 200000 / 2 ^ 44"
proof -
  define E :: rat where "E = 1 / 2 ^ 44"
  have E: "0 < E" "E \<le> 1 / 1000000000" by (simp_all add: E_def)
  note flE = fl_close [folded E_def]
  have 1: "\<bar>q - Q\<bar> \<le> 1793 * E" using assms(1) by (simp add: E_def)
  have 2: "\<bar>fl (q * 60) - 60 * Q\<bar> \<le> 107581 * E"
    by (rule flE [where a = "107580 * E"]) (use 1 assms(2) E in \<open>simp_all add: abs_le_iff add_divide_distrib\<close>)
  have 3: "\<bar>fl (fl (q * 60) + 360) - (60 * Q + 360)\<bar> \<le> 107582 * E"
    by (rule flE [where a = "107581 * E"]) (use 2 assms(2) E in \<open>simp_all add: abs_le_iff add_divide_distrib\<close>)
  have 4: "\<bar>fl (2 + q) - (2 + Q)\<bar> \<le> 1794 * E"
    by (rule flE [where a = "1793 * E"]) (use 1 assms(2) E in \<open>simp_all add: abs_le_iff add_divide_distrib\<close>)
  have 5: "\<bar>fl (fl (2 + q) * 60) - 60 * (2 + Q)\<bar> \<le> 107641 * E"
    by (rule flE [where a = "107640 * E"]) (use 4 assms(2) E in \<open>simp_all add: abs_le_iff add_divide_distrib\<close>)
  have 6: "\<bar>fl (4 + q) - (4 + Q)\<bar> \<le> 1794 * E"
    by (rule flE [where a = "1793 * E"]) (use 1 assms(2) E in \<open>simp_all add: abs_le_iff add_divide_distrib\<close>)
  have 7: "\<bar>fl (fl (4 + q) * 60) - 60 * (4 + Q)\<bar> \<le> 107641 * E"
    by (rule flE [where a = "107640 * E"]) (use 6 assms(2) E in \<open>simp_all add: abs_le_iff add_divide_distrib\<close>)
  show "\<bar>dmul q 60 - 60 * Q\<bar> \<le> 200000 / 2 ^ 44"
    using 2 E by (simp add: E_def dmul_def)
  show "\<bar>dadd (dmul q 60) 360 - (60 * Q + 360)\<bar> \<le> 200000 / 2 ^ 44"
    using 3 E by (simp add: E_def dmul_def dadd_def)
  show "\<bar>dmul (dadd 2 q) 60 - 60 * (2 + Q)\<bar> \<le> 200000 / 2 ^ 44"
    using 5 E by (simp add: E_def dmul_def dadd_def)
  show "\<bar>dmul (dadd 4 q) 60 - 60 * (4 + Q)\<bar> \<le> 200000 / 2 ^ 44"
    using 7 E by (simp add: E_def dmul_def dadd_def)
qed

lemma nearest_grid:
  fixes v x e :: rat and p q :: int
  assumes "\<bar>v - x\<bar> \<le> e" "e \<le> 200000 / 2 ^ 44" "x = of_int p / of_int q" "0 < q" "q \<le> 510"
  shows "nearest_integer (c_round v) x"
proof -
  have e: "0 \<le> e" using assms(1) by linarith
  have "(of_int q :: rat) \<le> of_int 510" using assms(5) by (simp only: of_int_le_iff)
  then have "(of_int q :: rat) \<le> 510" by simp
  then have "of_int q * e \<le> 510 * e" using e by (rule mult_right_mono)
  also have "\<dots> \<le> 510 * (200000 / 2 ^ 44)" using assms(2) by simp
  finally have "2 * of_int q * e < 1" by simp
  with assms(1,4) show ?thesis
    unfolding nearest_integer_def assms(3) by (intro round_grid)
qed

lemma two_minus_close:
  fixes mx mn XM Xm :: rat
  assumes "\<bar>mx - XM\<bar> \<le> 1 / 2 ^ 44" "\<bar>mn - Xm\<bar> \<le> 1 / 2 ^ 44" "0 \<le> Xm" "Xm \<le> XM" "XM \<le> 1"
  shows "\<bar>dsub (dsub 2 mx) mn - (2 - XM - Xm)\<bar> \<le> 4 / 2 ^ 44"
proof -
  define E :: rat where "E = 1 / 2 ^ 44"
  have E: "0 < E" "E \<le> 1 / 1000000000" by (simp_all add: E_def)
  note flE = fl_close [folded E_def]
  have 1: "\<bar>mx - XM\<bar> \<le> E" "\<bar>mn - Xm\<bar> \<le> E" using assms(1,2) by (simp_all only: E_def)
  have 2: "\<bar>fl (2 - mx) - (2 - XM)\<bar> \<le> 2 * E"
    by (rule flE [where a = "E"]) (use 1 E assms(3-5) in \<open>simp_all add: abs_le_iff\<close>)
  have 3: "\<bar>fl (fl (2 - mx) - mn) - (2 - XM - Xm)\<bar> \<le> 4 * E"
    by (rule flE [where a = "3 * E"]) (use 1 2 E assms(3-5) in \<open>simp_all add: abs_le_iff\<close>)
  then show ?thesis by (simp add: E_def dsub_def)
qed

lemma hue_sign:
  fixes a c d :: rat
  assumes "0 < d"
  shows "dmul (ddiv (dsub a c) d) 60 < 0 \<longleftrightarrow> a < c"
proof -
  have "dmul (ddiv (dsub a c) d) 60 < 0 \<longleftrightarrow> ddiv (dsub a c) d * 60 < 0"
    by (simp only: dmul_def fl_neg_iff)
  also have "\<dots> \<longleftrightarrow> ddiv (dsub a c) d < 0" by simp
  also have "\<dots> \<longleftrightarrow> dsub a c / d < 0" by (simp only: ddiv_def fl_neg_iff)
  also have "\<dots> \<longleftrightarrow> dsub a c < 0" using assms by (simp add: divide_less_0_iff)
  also have "\<dots> \<longleftrightarrow> a - c < 0" by (simp only: dsub_def fl_neg_iff)
  finally show ?thesis by simp
qed

lemma hsl_of_tuple:
  assumes "mx = max r (max g b)" "mn = min r (min g b)"
  shows "hsl_of r g b =
     (c_round (if dsub mx mn \<noteq> 0
               then (if dmul (if mx = r then ddiv (dsub g b) (dsub mx mn)
                              else if mx = g then dadd 2 (ddiv (dsub b r) (dsub mx mn))
                              else dadd 4 (ddiv (dsub r g) (dsub mx mn))) 60 < 0
                     then dadd (dmul (if mx = r then ddiv (dsub g b) (dsub mx mn)
                              else if mx = g then dadd 2 (ddiv (dsub b r) (dsub mx mn))
                              else dadd 4 (ddiv (dsub r g) (dsub mx mn))) 60) 360
                     else dmul (if mx = r then ddiv (dsub g b) (dsub mx mn)
                              else if mx = g then dadd 2 (ddiv (dsub b r) (dsub mx mn))
                              else dadd 4 (ddiv (dsub r g) (dsub mx mn))) 60)
               else 0),
      c_round (dmul (if dsub mx mn \<noteq> 0
                     then (if ddiv (dadd mx mn) 2 < 1 / 2 then ddiv (dsub mx mn) (dadd mx mn)
                           else ddiv (dsub mx mn) (dsub (dsub 2 mx) mn))
                     else 0) 100),
      c_round (dmul (ddiv (dadd mx mn) 2) 100))"
  by (simp only: hsl_of_def Let_def assms)

lemma hsl_of_components:
  assumes "mx = max r (max g b)" "mn = min r (min g b)"
  shows "snd (snd (hsl_of r g b)) = c_round (dmul (ddiv (dadd mx mn) 2) 100)"
    and "dsub mx mn = 0 \<Longrightarrow> fst (hsl_of r g b) = 0"
    and "dsub mx mn = 0 \<Longrightarrow> fst (snd (hsl_of r g b)) = 0"
    and "dsub mx mn \<noteq> 0 \<Longrightarrow> ddiv (dadd mx mn) 2 < 1 / 2 \<Longrightarrow>
         fst (snd (hsl_of r g b)) = c_round (dmul (ddiv (dsub mx mn) (dadd mx mn)) 100)"
    and "dsub mx mn \<noteq> 0 \<Longrightarrow> \<not> ddiv (dadd mx mn) 2 < 1 / 2 \<Longrightarrow>
         fst (snd (hsl_of r g b)) = c_round (dmul (ddiv (dsub mx mn) (dsub (dsub 2 mx) mn)) 100)"
    and "dsub mx mn \<noteq> 0 \<Longrightarrow> mx = r \<Longrightarrow> dmul (ddiv (dsub g b) (dsub mx mn)) 60 < 0 \<Longrightarrow>
         fst (hsl_of r g b) = c_round (dadd (dmul (ddiv (dsub g b) (dsub mx mn)) 60) 360)"
    and "dsub mx mn \<noteq> 0 \<Longrightarrow> mx = r \<Longrightarrow> \<not> dmul (ddiv (dsub g b) (dsub mx mn)) 60 < 0 \<Longrightarrow>
         fst (hsl_of r g b) = c_round (dmul (ddiv (dsub g b) (dsub mx mn)) 60)"
    and "dsub mx mn \<noteq> 0 \<Longrightarrow> mx \<noteq> r \<Longrightarrow> mx = g \<Longrightarrow>
         \<not> dmul (dadd 2 (ddiv (dsub b r) (dsub mx mn))) 60 < 0 \<Longrightarrow>
         fst (hsl_of r g b) = c_round (dmul (dadd 2 (ddiv (dsub b r) (dsub mx mn))) 60)"
    and "dsub mx mn \<noteq> 0 \<Longrightarrow> mx \<noteq> r \<Longrightarrow> mx \<noteq> g \<Longrightarrow>
         \<not> dmul (dadd 4 (ddiv (dsub r g) (dsub mx mn))) 60 < 0 \<Longrightarrow>
         fst (hsl_of r g b) = c_round (dmul (dadd 4 (ddiv (dsub r g) (dsub mx mn))) 60)"
proof -
  note t = hsl_of_tuple [OF assms]
  note s = fst_conv snd_conv if_True if_False not_True_eq_False not_False_eq_True
  show "snd (snd (hsl_of r g b)) = c_round (dmul (ddiv (dadd mx mn) 2) 100)"
    by (simp only: t s refl)
  show "fst (hsl_of r g b) = 0" if "dsub mx mn = 0"
    using that by (simp add: t)
  show "fst (snd (hsl_of r g b)) = 0" if "dsub mx mn = 0"
    using that by (simp add: t dmul_def)
  show "fst (snd (hsl_of r g b)) = c_round (dmul (ddiv (dsub mx mn) (dadd mx mn)) 100)"
    if "dsub mx mn \<noteq> 0" "ddiv (dadd mx mn) 2 < 1 / 2"
    using that by (simp only: t s refl)
  show "fst (snd (hsl_of r g b)) = c_round (dmul (ddiv (dsub mx mn) (dsub (dsub 2 mx) mn)) 100)"
    if "dsub mx mn \<noteq> 0" "\<not> ddiv (dadd mx mn) 2 < 1 / 2"
    using that by (simp only: t s refl)
  show "fst (hsl_of r g b) = c_round (dadd (dmul (ddiv (dsub g b) (dsub mx mn)) 60) 360)"
    if "dsub mx mn \<noteq> 0" "mx = r" "dmul (ddiv (dsub g b) (dsub mx mn)) 60 < 0"
    using that(1,3) unfolding t that(2) by (simp only: s refl)
  show "fst (hsl_of r g b) = c_round (dmul (ddiv (dsub g b) (dsub mx mn)) 60)"
    if "dsub mx mn \<noteq> 0" "mx = r" "\<not> dmul (ddiv (dsub g b) (dsub mx mn)) 60 < 0"
    using that(1,3) unfolding t that(2) by (simp only: s refl)
  show "fst (hsl_of r g b) = c_round (dmul (dadd 2 (ddiv (dsub b r) (dsub mx mn))) 60)"
    if "dsub mx mn \<noteq> 0" "mx \<noteq> r" "mx = g"
      "\<not> dmul (dadd 2 (ddiv (dsub b r) (dsub mx mn))) 60 < 0"
  proof -
    have "g \<noteq> r" using that(2,3) by simp
    with that(1,4) show ?thesis unfolding t that(3) by (simp only: s refl)
  qed
  show "fst (hsl_of r g b) = c_round (dmul (dadd 4 (ddiv (dsub r g) (dsub mx mn))) 60)"
    if "dsub mx mn \<noteq> 0" "mx \<noteq> r" "mx \<noteq> g"
      "\<not> dmul (dadd 4 (ddiv (dsub r g) (dsub mx mn))) 60 < 0"
    using that by (simp only: t s refl)
qed

lemma hsl_standard_tuple:
  assumes "mx = max r (max g b)" "mn = min r (min g b)"
  shows "hsl_standard r g b =
     (if mx - mn = 0 then (0, 0, 100 * ((mx + mn) / 2))
      else (60 * (if (if mx = r then (g - b) / (mx - mn)
                          else if mx = g then 2 + (b - r) / (mx - mn)
                          else 4 + (r - g) / (mx - mn)) < 0
                  then (if mx = r then (g - b) / (mx - mn)
                          else if mx = g then 2 + (b - r) / (mx - mn)
                          else 4 + (r - g) / (mx - mn)) + 6
                  else (if mx = r then (g - b) / (mx - mn)
                          else if mx = g then 2 + (b - r) / (mx - mn)
                          else 4 + (r - g) / (mx - mn))),
            100 * ((mx - mn) / (1 - \<bar>2 * ((mx + mn) / 2) - 1\<bar>)),
            100 * ((mx + mn) / 2)))"
  by (simp only: hsl_standard_def Let_def assms)

lemma hsl_standard_components:
  assumes "mx = max r (max g b)" "mn = min r (min g b)"
  shows "snd (snd (hsl_standard r g b)) = 100 * ((mx + mn) / 2)"
    and "mx - mn = 0 \<Longrightarrow> fst (hsl_standard r g b) = 0"
    and "mx - mn = 0 \<Longrightarrow> fst (snd (hsl_standard r g b)) = 0"
    and "mx - mn \<noteq> 0 \<Longrightarrow>
         fst (snd (hsl_standard r g b)) = 100 * ((mx - mn) / (1 - \<bar>2 * ((mx + mn) / 2) - 1\<bar>))"
    and "mx - mn \<noteq> 0 \<Longrightarrow> mx = r \<Longrightarrow> (g - b) / (mx - mn) < 0 \<Longrightarrow>
         fst (hsl_standard r g b) = 60 * ((g - b) / (mx - mn) + 6)"
    and "mx - mn \<noteq> 0 \<Longrightarrow> mx = r \<Longrightarrow> \<not> (g - b) / (mx - mn) < 0 \<Longrightarrow>
         fst (hsl_standard r g b) = 60 * ((g - b) / (mx - mn))"
    and "mx - mn \<noteq> 0 \<Longrightarrow> mx \<noteq> r \<Longrightarrow> mx = g \<Longrightarrow> \<not> 2 + (b - r) / (mx - mn) < 0 \<Longrightarrow>
         fst (hsl_standard r g b) = 60 * (2 + (b - r) / (mx - mn))"
    and "mx - mn \<noteq> 0 \<Longrightarrow> mx \<noteq> r \<Longrightarrow> mx \<noteq> g \<Longrightarrow> \<not> 4 + (r - g) / (mx - mn) < 0 \<Longrightarrow>
         fst (hsl_standard r g b) = 60 * (4 + (r - g) / (mx - mn))"
proof -
  note t = hsl_standard_tuple [OF assms]
  note s = fst_conv snd_conv if_True if_False not_True_eq_False not_False_eq_True
  show "snd (snd (hsl_standard r g b)) = 100 * ((mx + mn) / 2)"
    by (cases "mx - mn = 0") (simp_all only: t s refl)
  show "fst (hsl_standard r g b) = 0" if "mx - mn = 0"
    using that by (simp only: t s refl)
  show "fst (snd (hsl_standard r g b)) = 0" if "mx - mn = 0"
    using that by (simp only: t s refl)
  show "fst (snd (hsl_standard r g b)) = 100 * ((mx - mn) / (1 - \<bar>2 * ((mx + mn) / 2) - 1\<bar>))"
    if "mx - mn \<noteq> 0"
    using that by (simp only: t s refl)
  show "fst (hsl_standard r g b) = 60 * ((g - b) / (mx - mn) + 6)"
    if "mx - mn \<noteq> 0" "mx = r" "(g - b) / (mx - mn) < 0"
    using that(1,3) unfolding t that(2) by (simp only: s refl)
  show "fst (hsl_standard r g b) = 60 * ((g - b) / (mx - mn))"
    if "mx - mn \<noteq> 0" "mx = r" "\<not> (g - b) / (mx - mn) < 0"
    using that(1,3) unfolding t that(2) by (simp only: s refl)
  show "fst (hsl_standard r g b) = 60 * (2 + (b - r) / (mx - mn))"
    if "mx - mn \<noteq> 0" "mx \<noteq> r" "mx = g" "\<not> 2 + (b - r) / (mx - mn) < 0"
  proof -
    have "g \<noteq> r" using that(2,3) by simp
    with that(1,4) show ?thesis unfolding t that(3) by (simp only: s refl)
  qed
  show "fst (hsl_standard r g b) = 60 * (4 + (r - g) / (mx - mn))"
    if "mx - mn \<noteq> 0" "mx \<noteq> r" "mx \<noteq> g" "\<not> 4 + (r - g) / (mx - mn) < 0"
    using that by (simp only: t s refl)
qed

lemma abs_quot_le_1:
  fixes X Y :: rat
  assumes "\<bar>X\<bar> \<le> Y" "0 < Y"
  shows "\<bar>X / Y\<bar> \<le> 1"
  using assms by (simp add: field_simps)

lemma ratio_255:
  fixes a b :: rat
  shows "100 * ((a / 255) / (b / 255)) = (100 * a) / b"
  by simp

lemma nearest_integer_0 [simp]: "nearest_integer 0 0"
  by (simp add: nearest_integer_def)

lemma hsl_core:
  fixes R G B :: int
  assumes R: "0 \<le> R" "R \<le> 255" and G: "0 \<le> G" "G \<le> 255" and B: "0 \<le> B" "B \<le> 255"
  shows "nearest_integer (fst (hsl_of (fl (of_int R / 255)) (fl (of_int G / 255)) (fl (of_int B / 255))))
           (fst (hsl_standard (of_int R / 255) (of_int G / 255) (of_int B / 255)))" (is ?H)
    and "nearest_integer (fst (snd (hsl_of (fl (of_int R / 255)) (fl (of_int G / 255)) (fl (of_int B / 255)))))
           (fst (snd (hsl_standard (of_int R / 255) (of_int G / 255) (of_int B / 255))))" (is ?S)
    and "nearest_integer (snd (snd (hsl_of (fl (of_int R / 255)) (fl (of_int G / 255)) (fl (of_int B / 255)))))
           (snd (snd (hsl_standard (of_int R / 255) (of_int G / 255) (of_int B / 255))))" (is ?L)
proof -
  define M where "M = max R (max G B)"
  define m where "m = min R (min G B)"
  define XR :: rat where "XR = of_int R / 255"
  define XG :: rat where "XG = of_int G / 255"
  define XB :: rat where "XB = of_int B / 255"
  define XM :: rat where "XM = of_int M / 255"
  define Xm :: rat where "Xm = of_int m / 255"
  define r where "r = fl XR"
  define g where "g = fl XG"
  define b where "b = fl XB"
  define mx where "mx = fl XM"
  define mn where "mn = fl Xm"
  note defs = XR_def XG_def XB_def XM_def Xm_def r_def g_def b_def mx_def mn_def
  have Mm: "0 \<le> m" "m \<le> M" "M \<le> 255" "0 \<le> M" "m \<le> 255"
    and ch: "m \<le> R" "R \<le> M" "m \<le> G" "G \<le> M" "m \<le> B" "B \<le> M"
    using R G B by (auto simp: M_def m_def)
  have mx: "mx = max r (max g b)" and mn: "mn = min r (min g b)"
    unfolding defs M_def m_def by (simp_all only: unit_max unit_min)
  have XMe: "XM = max XR (max XG XB)" and Xme: "Xm = min XR (min XG XB)"
    unfolding defs M_def m_def by (simp_all only: exact_max exact_min)
  note hc = hsl_of_components [OF mx mn]
  note sc = hsl_standard_components [OF XMe Xme]
  have cM: "\<bar>mx - XM\<bar> \<le> 1 / 2 ^ 44" and cm: "\<bar>mn - Xm\<bar> \<le> 1 / 2 ^ 44"
    and cr: "\<bar>r - XR\<bar> \<le> 1 / 2 ^ 44" and cg: "\<bar>g - XG\<bar> \<le> 1 / 2 ^ 44"
    and cb: "\<bar>b - XB\<bar> \<le> 1 / 2 ^ 44"
    unfolding defs
    by (fact unit_close [OF Mm(4,3)] unit_close [OF Mm(1,5)] unit_close [OF R] unit_close [OF G]
        unit_close [OF B])+
  have X: "0 \<le> Xm" "Xm \<le> XM" "XM \<le> 1"
    and Xch: "Xm \<le> XR" "XR \<le> XM" "Xm \<le> XG" "XG \<le> XM" "Xm \<le> XB" "XB \<le> XM"
    unfolding defs using Mm ch by simp_all
  have Xabs: "\<bar>XR\<bar> \<le> 2" "\<bar>XG\<bar> \<le> 2" "\<bar>XB\<bar> \<le> 2" "\<bar>XM\<bar> \<le> 2" "\<bar>Xm\<bar> \<le> 2"
    using X Xch by (simp_all add: abs_le_iff)
  have sum: "XM + Xm = of_int (M + m) / 255" and diff: "XM - Xm = of_int (M - m) / 255"
    and two: "2 - XM - Xm = of_int (510 - M - m) / 255"
    by (simp_all add: XM_def Xm_def field_simps)
  have lc: "\<bar>dmul (ddiv (dadd mx mn) 2) 100 - 100 * ((XM + Xm) / 2)\<bar> \<le> 301 / 2 ^ 44"
    using cM cm X by (rule light_close(3))
  have le: "100 * ((XM + Xm) / 2) = of_int (100 * (M + m)) / of_int 510"
    unfolding sum by simp
  have "nearest_integer (c_round (dmul (ddiv (dadd mx mn) 2) 100)) (100 * ((XM + Xm) / 2))"
    using lc _ le by (rule nearest_grid) simp_all
  then show ?L by (simp only: hc(1) sc(1) flip: defs)
  show ?H
  proof (cases "M = m")
    case True
    then have "dsub mx mn = 0" "XM - Xm = 0" by (simp_all add: dsub_def mx_def mn_def XM_def Xm_def)
    then have "fst (hsl_of r g b) = 0" "fst (hsl_standard XR XG XB) = 0" by (simp_all only: hc(2) sc(2))
    then have "nearest_integer (fst (hsl_of r g b)) (fst (hsl_standard XR XG XB))" by simp
    then show ?thesis by (simp only: defs)
  next
    case False
    then have lt: "m < M" using Mm(2) by simp
    have D: "0 < M - m" "M - m \<le> 510" using lt Mm by simp_all
    have "mn < mx" unfolding mx_def mn_def XM_def Xm_def using Mm(1) lt Mm(3) by (rule unit_less)
    then have dpos: "0 < dsub mx mn" unfolding dsub_def by (intro fl_pos) simp
    then have d1: "dsub mx mn \<noteq> 0" by simp
    have "(1 :: rat) \<le> of_int (M - m)" using lt by (simp flip: of_int_diff del: of_int_diff)
    then have Y: "1 / 255 \<le> XM - Xm" unfolding diff by simp
    then have d0: "XM - Xm \<noteq> 0" and Ypos: "0 < XM - Xm" by simp_all
    have cd: "\<bar>dsub mx mn - (XM - Xm)\<bar> \<le> 4 / 2 ^ 44"
      using sub_close [OF cM cm Xabs(4,5)] by simp
    have quot: "\<bar>ddiv (dsub a c) (dsub mx mn) - (XA - XC) / (XM - Xm)\<bar> \<le> 1793 / 2 ^ 44"
      "\<bar>(XA - XC) / (XM - Xm)\<bar> \<le> 1"
      if "\<bar>a - XA\<bar> \<le> 1 / 2 ^ 44" "\<bar>c - XC\<bar> \<le> 1 / 2 ^ 44"
        "Xm \<le> XA" "XA \<le> XM" "Xm \<le> XC" "XC \<le> XM" for a c XA XC
    proof -
      have a: "\<bar>XA\<bar> \<le> 2" "\<bar>XC\<bar> \<le> 2" using that(3-6) X by (simp_all add: abs_le_iff)
      have le: "\<bar>XA - XC\<bar> \<le> XM - Xm" using that(3-6) by (simp add: abs_le_iff)
      show "\<bar>ddiv (dsub a c) (dsub mx mn) - (XA - XC) / (XM - Xm)\<bar> \<le> 1793 / 2 ^ 44"
        using sub_close [OF that(1,2) a] cd le Y by (rule quot_close(1))
      show "\<bar>(XA - XC) / (XM - Xm)\<bar> \<le> 1" using le Ypos by (rule abs_quot_le_1)
    qed
    show ?thesis
    proof (cases "M = R")
      case True
      then have e: "mx = r" "XM = XR" by (simp_all add: defs)
      define Q where "Q = (XG - XB) / (XM - Xm)"
      define q where "q = ddiv (dsub g b) (dsub mx mn)"
      have cq: "\<bar>q - Q\<bar> \<le> 1793 / 2 ^ 44" and Q1: "\<bar>Q\<bar> \<le> 1"
        unfolding q_def Q_def using cg cb Xch(3-6) by (rule quot)+
      have "XG - XB = of_int (G - B) / 255" by (simp add: defs field_simps)
      then have Qe: "Q = of_int (G - B) / of_int (M - m)" unfolding Q_def diff by simp
      have sgn: "dmul q 60 < 0 \<longleftrightarrow> G < B"
        unfolding q_def hue_sign [OF dpos] g_def b_def XG_def XB_def using G B by (rule unit_less_iff)
      have sgn0: "Q < 0 \<longleftrightarrow> G < B"
        unfolding Q_def using Ypos by (simp add: divide_less_0_iff XG_def XB_def)
      show ?thesis
      proof (cases "G < B")
        case True
        have 1: "fst (hsl_of r g b) = c_round (dadd (dmul q 60) 360)"
          unfolding q_def using d1 e(1) True sgn [unfolded q_def] by (intro hc(6)) simp_all
        have 2: "fst (hsl_standard XR XG XB) = 60 * (Q + 6)"
          unfolding Q_def using d0 e(2) True sgn0 [unfolded Q_def] by (intro sc(5)) simp_all
        have "60 * (Q + 6) = 60 * Q + 360" by simp
        also have "\<dots> = of_int (60 * (G - B) + 360 * (M - m)) / of_int (M - m)"
          unfolding Qe using D(1) by (simp add: field_simps)
        finally have 3: "60 * (Q + 6) = of_int (60 * (G - B) + 360 * (M - m)) / of_int (M - m)" .
        have "\<bar>dadd (dmul q 60) 360 - 60 * (Q + 6)\<bar> \<le> 200000 / 2 ^ 44"
          using hue_close(2) [OF cq Q1] by (simp add: algebra_simps)
        then have "nearest_integer (c_round (dadd (dmul q 60) 360)) (60 * (Q + 6))"
          using _ 3 D by (rule nearest_grid) simp
        then show ?thesis by (simp only: 1 2 flip: defs)
      next
        case False
        have 1: "fst (hsl_of r g b) = c_round (dmul q 60)"
          unfolding q_def using d1 e(1) False sgn [unfolded q_def] by (intro hc(7)) simp_all
        have 2: "fst (hsl_standard XR XG XB) = 60 * Q"
          unfolding Q_def using d0 e(2) False sgn0 [unfolded Q_def] by (intro sc(6)) simp_all
        have 3: "60 * Q = of_int (60 * (G - B)) / of_int (M - m)"
          unfolding Qe by simp
        have "nearest_integer (c_round (dmul q 60)) (60 * Q)"
          using hue_close(1) [OF cq Q1] _ 3 D by (rule nearest_grid) simp
        then show ?thesis by (simp only: 1 2 flip: defs)
      qed
    next
      case nR: False
      then have e: "mx \<noteq> r" "XM \<noteq> XR"
        using unit_eq_iff [of M R] Mm R by (simp_all add: defs)
      show ?thesis
      proof (cases "M = G")
        case True
        then have e': "mx = g" "XM = XG" by (simp_all add: defs)
        define Q where "Q = (XB - XR) / (XM - Xm)"
        define q where "q = ddiv (dsub b r) (dsub mx mn)"
        have cq: "\<bar>q - Q\<bar> \<le> 1793 / 2 ^ 44" and Q1: "\<bar>Q\<bar> \<le> 1"
          unfolding q_def Q_def using cb cr Xch(5,6,1,2) by (rule quot)+
        have "XB - XR = of_int (B - R) / 255" by (simp add: defs field_simps)
        then have Qe: "Q = of_int (B - R) / of_int (M - m)" unfolding Q_def diff by simp
        have c: "\<bar>dmul (dadd 2 q) 60 - 60 * (2 + Q)\<bar> \<le> 200000 / 2 ^ 44"
          using cq Q1 by (rule hue_close(3))
        have "200000 / 2 ^ 44 \<le> (1 :: rat)" by simp
        with c have "\<bar>dmul (dadd 2 q) 60 - 60 * (2 + Q)\<bar> \<le> 1" by (rule order_trans)
        then have p: "\<not> dmul (dadd 2 q) 60 < 0" "\<not> 2 + Q < 0"
          using Q1 by (simp_all add: abs_le_iff)
        have 1: "fst (hsl_of r g b) = c_round (dmul (dadd 2 q) 60)"
          unfolding q_def using d1 e(1) e'(1) p(1) [unfolded q_def] by (rule hc(8))
        have 2: "fst (hsl_standard XR XG XB) = 60 * (2 + Q)"
          unfolding Q_def using d0 e(2) e'(2) p(2) [unfolded Q_def] by (rule sc(7))
        have 3: "60 * (2 + Q) = of_int (120 * (M - m) + 60 * (B - R)) / of_int (M - m)"
          unfolding Qe using D(1) by (simp add: field_simps)
        have "nearest_integer (c_round (dmul (dadd 2 q) 60)) (60 * (2 + Q))"
          using c _ 3 D by (rule nearest_grid) simp
        then show ?thesis by (simp only: 1 2 flip: defs)
      next
        case nG: False
        then have e': "mx \<noteq> g" "XM \<noteq> XG"
          using unit_eq_iff [of M G] Mm G by (simp_all add: defs)
        define Q where "Q = (XR - XG) / (XM - Xm)"
        define q where "q = ddiv (dsub r g) (dsub mx mn)"
        have cq: "\<bar>q - Q\<bar> \<le> 1793 / 2 ^ 44" and Q1: "\<bar>Q\<bar> \<le> 1"
          unfolding q_def Q_def using cr cg Xch(1-4) by (rule quot)+
        have "XR - XG = of_int (R - G) / 255" by (simp add: defs field_simps)
        then have Qe: "Q = of_int (R - G) / of_int (M - m)" unfolding Q_def diff by simp
        have c: "\<bar>dmul (dadd 4 q) 60 - 60 * (4 + Q)\<bar> \<le> 200000 / 2 ^ 44"
          using cq Q1 by (rule hue_close(4))
        have "200000 / 2 ^ 44 \<le> (1 :: rat)" by simp
        with c have "\<bar>dmul (dadd 4 q) 60 - 60 * (4 + Q)\<bar> \<le> 1" by (rule order_trans)
        then have p: "\<not> dmul (dadd 4 q) 60 < 0" "\<not> 4 + Q < 0"
          using Q1 by (simp_all add: abs_le_iff)
        have 1: "fst (hsl_of r g b) = c_round (dmul (dadd 4 q) 60)"
          unfolding q_def using d1 e(1) e'(1) p(1) [unfolded q_def] by (rule hc(9))
        have 2: "fst (hsl_standard XR XG XB) = 60 * (4 + Q)"
          unfolding Q_def using d0 e(2) e'(2) p(2) [unfolded Q_def] by (rule sc(8))
        have 3: "60 * (4 + Q) = of_int (240 * (M - m) + 60 * (R - G)) / of_int (M - m)"
          unfolding Qe using D(1) by (simp add: field_simps)
        have "nearest_integer (c_round (dmul (dadd 4 q) 60)) (60 * (4 + Q))"
          using c _ 3 D by (rule nearest_grid) simp
        then show ?thesis by (simp only: 1 2 flip: defs)
      qed
    qed
  qed
  show ?S
  proof (cases "M = m")
    case True
    then have "dsub mx mn = 0" "XM - Xm = 0" by (simp_all add: dsub_def mx_def mn_def XM_def Xm_def)
    then have "fst (snd (hsl_of r g b)) = 0" "fst (snd (hsl_standard XR XG XB)) = 0"
      by (simp_all only: hc(3) sc(3))
    then have "nearest_integer (fst (snd (hsl_of r g b))) (fst (snd (hsl_standard XR XG XB)))" by simp
    then show ?thesis by (simp only: defs)
  next
    case False
    then have lt: "m < M" using Mm(2) by simp
    have "mn < mx" unfolding mx_def mn_def XM_def Xm_def using Mm(1) lt Mm(3) by (rule unit_less)
    then have dpos: "0 < dsub mx mn" unfolding dsub_def by (intro fl_pos) simp
    then have d1: "dsub mx mn \<noteq> 0" by simp
    have "(1 :: rat) \<le> of_int (M - m)" using lt by (simp flip: of_int_diff del: of_int_diff)
    then have Y: "1 / 255 \<le> XM - Xm" unfolding diff by simp
    then have d0: "XM - Xm \<noteq> 0" and Ypos: "0 < XM - Xm" by simp_all
    have cd: "\<bar>dsub mx mn - (XM - Xm)\<bar> \<le> 3 / 2 ^ 44"
      using cM cm Xabs(4,5) by (rule sub_close)
    have s0: "fst (snd (hsl_standard XR XG XB)) = 100 * ((XM - Xm) / (1 - \<bar>2 * ((XM + Xm) / 2) - 1\<bar>))"
      using d0 by (rule sc(4))
    define L0 where "L0 = (XM + Xm) / 2"
    have L0: "XM + Xm = 2 * L0" by (simp add: L0_def)
    have "\<bar>ddiv (dadd mx mn) 2 - L0\<bar> \<le> 3 / 2 ^ 44"
      unfolding L0_def using cM cm X by (rule light_close(2))
    moreover have "3 / 2 ^ 44 \<le> (1 / 1000 :: rat)" by simp
    ultimately have "\<bar>ddiv (dadd mx mn) 2 - L0\<bar> \<le> 1 / 1000" by (rule order_trans)
    then have l2: "ddiv (dadd mx mn) 2 - 1 / 1000 \<le> L0" "L0 \<le> ddiv (dadd mx mn) 2 + 1 / 1000"
      by linarith+
    show ?thesis
    proof (cases "ddiv (dadd mx mn) 2 < 1 / 2")
      case True
      with l2(2) have "L0 < 1 / 2 + 1 / 1000" by linarith
      then have "XM + Xm < 1 + 1 / 255" unfolding L0 by linarith
      then have "(of_int (M + m) :: rat) < of_int 256" unfolding sum by simp
      then have "M + m < 256" by (simp only: of_int_less_iff)
      then have "M + m \<le> 255" by simp
      then have "(of_int (M + m) :: rat) \<le> of_int 255" by (simp only: of_int_le_iff)
      then have low: "XM + Xm \<le> 1" unfolding sum by simp
      have q: "0 < M + m" "M + m \<le> 510" using lt Mm by simp_all
      have 1: "fst (snd (hsl_of r g b)) = c_round (dmul (ddiv (dsub mx mn) (dadd mx mn)) 100)"
        using d1 True by (rule hc(4))
      have tw: "2 * ((XM + Xm) / 2) = XM + Xm" by simp
      have "\<bar>XM + Xm - 1\<bar> = 1 - (XM + Xm)" using low by simp
      then have "1 - \<bar>2 * ((XM + Xm) / 2) - 1\<bar> = XM + Xm" unfolding tw by linarith
      then have 2: "fst (snd (hsl_standard XR XG XB)) = 100 * ((XM - Xm) / (XM + Xm))"
        by (simp only: s0)
      have 3: "100 * ((XM - Xm) / (XM + Xm)) = of_int (100 * (M - m)) / of_int (M + m)"
        unfolding sum diff by (simp only: ratio_255 of_int_mult of_int_numeral)
      have cs: "\<bar>dadd mx mn - (XM + Xm)\<bar> \<le> 4 / 2 ^ 44"
        using light_close(1) [OF cM cm X] by simp
      have "\<bar>XM - Xm\<bar> \<le> XM + Xm" using X by (simp add: abs_le_iff)
      moreover have "1 / 255 \<le> XM + Xm" using Y X by simp
      ultimately have "\<bar>dmul (ddiv (dsub mx mn) (dadd mx mn)) 100 - 100 * ((XM - Xm) / (XM + Xm))\<bar>
          \<le> 179301 / 2 ^ 44"
        using cd cs by (intro quot_close(2))
      then have "nearest_integer (c_round (dmul (ddiv (dsub mx mn) (dadd mx mn)) 100))
          (100 * ((XM - Xm) / (XM + Xm)))"
        using _ 3 q by (rule nearest_grid) simp
      then show ?thesis by (simp only: 1 2 flip: defs)
    next
      case False
      with l2(1) have "1 / 2 - 1 / 1000 \<le> L0" by linarith
      then have "1 - 1 / 255 < XM + Xm" unfolding L0 by linarith
      then have "(of_int 254 :: rat) < of_int (M + m)" unfolding sum by simp
      then have "254 < M + m" by (simp only: of_int_less_iff)
      then have "255 \<le> M + m" by simp
      then have "(of_int 255 :: rat) \<le> of_int (M + m)" by (simp only: of_int_le_iff)
      then have high: "1 \<le> XM + Xm" unfolding sum by simp
      have q: "0 < 510 - M - m" "510 - M - m \<le> 510" using lt Mm by simp_all
      have 1: "fst (snd (hsl_of r g b)) = c_round (dmul (ddiv (dsub mx mn) (dsub (dsub 2 mx) mn)) 100)"
        using d1 False by (rule hc(5))
      have tw: "2 * ((XM + Xm) / 2) = XM + Xm" by simp
      have "\<bar>XM + Xm - 1\<bar> = XM + Xm - 1" using high by simp
      then have "1 - \<bar>2 * ((XM + Xm) / 2) - 1\<bar> = 2 - XM - Xm" unfolding tw by linarith
      then have 2: "fst (snd (hsl_standard XR XG XB)) = 100 * ((XM - Xm) / (2 - XM - Xm))"
        by (simp only: s0)
      have 3: "100 * ((XM - Xm) / (2 - XM - Xm)) = of_int (100 * (M - m)) / of_int (510 - M - m)"
        unfolding two diff by (simp only: ratio_255 of_int_mult of_int_numeral)
      have cs: "\<bar>dsub (dsub 2 mx) mn - (2 - XM - Xm)\<bar> \<le> 4 / 2 ^ 44"
        using cM cm X by (rule two_minus_close)
      have "\<bar>XM - Xm\<bar> \<le> 2 - XM - Xm" using X by (simp add: abs_le_iff)
      moreover have "1 / 255 \<le> 2 - XM - Xm" using Y X by simp
      ultimately have "\<bar>dmul (ddiv (dsub mx mn) (dsub (dsub 2 mx) mn)) 100 -
          100 * ((XM - Xm) / (2 - XM - Xm))\<bar> \<le> 179301 / 2 ^ 44"
        using cd cs by (intro quot_close(2))
      then have "nearest_integer (c_round (dmul (ddiv (dsub mx mn) (dsub (dsub 2 mx) mn)) 100))
          (100 * ((XM - Xm) / (2 - XM - Xm)))"
        using _ 3 q by (rule nearest_grid) simp
      then show ?thesis by (simp only: 1 2 flip: defs)
    qed
  qed
qed

lemma hsl_nearest:
  assumes "R < 256" "G < 256" "B < 256"
  shows "nearest_integer (fst (hsl_of (norm255 R) (norm255 G) (norm255 B)))
           (fst (hsl_standard (of_nat R / 255) (of_nat G / 255) (of_nat B / 255)))"
    and "nearest_integer (fst (snd (hsl_of (norm255 R) (norm255 G) (norm255 B))))
           (fst (snd (hsl_standard (of_nat R / 255) (of_nat G / 255) (of_nat B / 255))))"
    and "nearest_integer (snd (snd (hsl_of (norm255 R) (norm255 G) (norm255 B))))
           (snd (snd (hsl_standard (of_nat R / 255) (of_nat G / 255) (of_nat B / 255))))"
proof -
  have b: "0 \<le> int R" "int R \<le> 255" "0 \<le> int G" "int G \<le> 255" "0 \<le> int B" "int B \<le> 255"
    using assms by simp_all
  show "nearest_integer (fst (hsl_of (norm255 R) (norm255 G) (norm255 B)))
           (fst (hsl_standard (of_nat R / 255) (of_nat G / 255) (of_nat B / 255)))"
    using hsl_core(1) [OF b] by (simp add: norm255_def ddiv_def)
  show "nearest_integer (fst (snd (hsl_of (norm255 R) (norm255 G) (norm255 B))))
           (fst (snd (hsl_standard (of_nat R / 255) (of_nat G / 255) (of_nat B / 255))))"
    using hsl_core(2) [OF b] by (simp add: norm255_def ddiv_def)
  show "nearest_integer (snd (snd (hsl_of (norm255 R) (norm255 G) (norm255 B))))
           (snd (snd (hsl_standard (of_nat R / 255) (of_nat G / 255) (of_nat B / 255))))"
    using hsl_core(3) [OF b] by (simp add: norm255_def ddiv_def)
qed

lemma hsl_standard_values:
  "hsl_standard 1 1 1 = (0, 0, 100)" "hsl_standard 0 0 0 = (0, 0, 0)" "hsl_standard 1 0 0 = (0, 100, 50)"
  by (simp_all add: hsl_standard_def Let_def)

lemma hsl_text_values:
  "format_text 0xFFFFFF FORMAT_HSL = ''hsl(0, 0%, 100%);''"
  "format_text 0x000000 FORMAT_HSL = ''hsl(0, 0%, 0%);''"
  "format_text 0xFF0000 FORMAT_HSL = ''hsl(0, 100%, 50%);''"
  by code_simp+

text \<open>The colour \<open>0xC99595\<close> has the exact saturation 32.5 and is printed with 32.\<close>

lemma hsl_tie:
  "format_color 0xC99595 FORMAT_HSL 64 = ''hsl(0, 32%, 69%);'' \<and>
   hsl_standard (of_nat (chan_r 0xC99595) / 255) (of_nat (chan_g 0xC99595) / 255)
     (of_nat (chan_b 0xC99595) / 255) = (0, 65 / 2, 3500 / 51)"
  by code_simp

text \<open>
  Claim C7. With a buffer of more than 32 bytes, the text of the HSL format is
  \<open>hsl(h, s%, l%);\<close> where \<open>h\<close>, \<open>s\<close> and \<open>l\<close> are nearest integers of the hue in degrees, the
  saturation in percent and the lightness in percent that the standard conversion gives in
  exact arithmetic for the three channels divided by 255 (maximum, minimum and difference,
  hue 0 and saturation 0 when the difference is 0, hue branch of the first channel among R,
  G, B that equals the maximum). White gives saturation 0 and lightness 100, black gives
  saturation 0 and lightness 0, red gives hue 0, saturation 100 and lightness 50, in the text
  and in the exact conversion alike. (Where an exact value lies halfway between two integers,
  the doubles of the program decide which of the two is printed: lemma \<open>hsl_tie\<close>.)
\<close>

theorem hsl_conversion:
  assumes "32 < n"
  shows "(\<exists>h s l. format_color c FORMAT_HSL n =
            ''hsl('' @ fmt_d h @ '', '' @ fmt_d s @ ''%, '' @ fmt_d l @ ''%);'' \<and>
          nearest_integer h (fst (hsl_standard (of_nat (chan_r c) / 255) (of_nat (chan_g c) / 255)
                                          (of_nat (chan_b c) / 255))) \<and>
          nearest_integer s (fst (snd (hsl_standard (of_nat (chan_r c) / 255) (of_nat (chan_g c) / 255)
                                          (of_nat (chan_b c) / 255)))) \<and>
          nearest_integer l (snd (snd (hsl_standard (of_nat (chan_r c) / 255) (of_nat (chan_g c) / 255)
                                          (of_nat (chan_b c) / 255))))) \<and>
         format_color 0xFFFFFF FORMAT_HSL n = ''hsl(0, 0%, 100%);'' \<and>
         format_color 0x000000 FORMAT_HSL n = ''hsl(0, 0%, 0%);'' \<and>
         format_color 0xFF0000 FORMAT_HSL n = ''hsl(0, 100%, 50%);'' \<and>
         hsl_standard 1 1 1 = (0, 0, 100) \<and> hsl_standard 0 0 0 = (0, 0, 0) \<and> hsl_standard 1 0 0 = (0, 100, 50)"
proof -
  note f = format_color_fits [OF assms]
  have "format_color c FORMAT_HSL n =
      ''hsl('' @ fmt_d (fst (hsl_of (norm255 (chan_r c)) (norm255 (chan_g c)) (norm255 (chan_b c)))) @ '', ''
       @ fmt_d (fst (snd (hsl_of (norm255 (chan_r c)) (norm255 (chan_g c)) (norm255 (chan_b c))))) @ ''%, ''
       @ fmt_d (snd (snd (hsl_of (norm255 (chan_r c)) (norm255 (chan_g c)) (norm255 (chan_b c))))) @ ''%);''"
    by (simp only: f format_text_simps(5))
  then have "\<exists>h s l. format_color c FORMAT_HSL n =
            ''hsl('' @ fmt_d h @ '', '' @ fmt_d s @ ''%, '' @ fmt_d l @ ''%);'' \<and>
          nearest_integer h (fst (hsl_standard (of_nat (chan_r c) / 255) (of_nat (chan_g c) / 255)
                                          (of_nat (chan_b c) / 255))) \<and>
          nearest_integer s (fst (snd (hsl_standard (of_nat (chan_r c) / 255) (of_nat (chan_g c) / 255)
                                          (of_nat (chan_b c) / 255)))) \<and>
          nearest_integer l (snd (snd (hsl_standard (of_nat (chan_r c) / 255) (of_nat (chan_g c) / 255)
                                          (of_nat (chan_b c) / 255))))"
    using hsl_nearest [OF chan_bounds [of c]] by blast
  then show ?thesis
    by (simp only: f hsl_text_values hsl_standard_values simp_thms)
qed

theorem hsl_conversion_witness:
  "(32 :: nat) < 64 \<and>
   (\<exists>h s l. format_color 0xC99595 FORMAT_HSL 64 =
            ''hsl('' @ fmt_d h @ '', '' @ fmt_d s @ ''%, '' @ fmt_d l @ ''%);'' \<and>
          nearest_integer h (fst (hsl_standard (of_nat (chan_r 0xC99595) / 255)
             (of_nat (chan_g 0xC99595) / 255) (of_nat (chan_b 0xC99595) / 255))) \<and>
          nearest_integer s (fst (snd (hsl_standard (of_nat (chan_r 0xC99595) / 255)
             (of_nat (chan_g 0xC99595) / 255) (of_nat (chan_b 0xC99595) / 255)))) \<and>
          nearest_integer l (snd (snd (hsl_standard (of_nat (chan_r 0xC99595) / 255)
             (of_nat (chan_g 0xC99595) / 255) (of_nat (chan_b 0xC99595) / 255)))))"
  using hsl_conversion [of 64 "0xC99595"] by simp

subsection \<open>What the handlers leave unchanged\<close>

lemma request_simps [simp]:
  "xlog (request rs st) = xlog st @ rs"
  "clipboard_text (request rs st) = clipboard_text st"
  "color_boxes (request rs st) = color_boxes st"
  "last_clicked_box (request rs st) = last_clicked_box st"
  "current_format (request rs st) = current_format st"
  "app_window (request rs st) = app_window st"
  "rect_size (request rs st) = rect_size st"
  "dock_width (request rs st) = dock_width st"
  "dock_height (request rs st) = dock_height st"
  "wm_delete (request rs st) = wm_delete st"
  "stderr_log (request rs st) = stderr_log st"
  "exited (request rs st) = exited st"
  by (simp_all add: request_def)

lemma quiet_simps [simp]:
  "quiet []" "quiet (rs @ rs') = (quiet rs \<and> quiet rs')"
  "quiet (r # rs) = (\<not> is_XSetSelectionOwner r \<and> quiet rs)"
  by (auto simp: quiet_def)

lemma request_request [simp]: "request rs' (request rs st) = request (rs @ rs') st"
  by (simp add: request_def)

lemma request_Nil [simp]: "request [] st = st"
  by (simp add: request_def)

lemma commit_count_request [simp]:
  "commit_count (request rs st) = commit_count st + length (filter is_XSetSelectionOwner rs)"
  by (simp add: commit_count_def)

lemma commit_count_quiet [simp]: "quiet rs \<Longrightarrow> commit_count (request rs st) = commit_count st"
  by (simp add: quiet_def)

lemma request_exI: "quiet rs \<Longrightarrow> \<exists>rs'. request rs st = request rs' st \<and> quiet rs'"
  by blast

lemma draw_colorbox_request:
  "\<exists>rs. draw_colorbox xs box st = request rs st \<and> quiet rs"
proof (cases box)
  case None
  then have "draw_colorbox xs box st = request [] st"
    by (simp add: draw_colorbox_def)
  then show ?thesis by (metis quiet_simps(1))
next
  case (Some i)
  then show ?thesis
    by (auto simp: draw_colorbox_def Let_def split: prod.splits intro!: request_exI)
qed

lemma draw_fold_request:
  "\<exists>rs. fold (\<lambda>i. draw_colorbox xs (Some i)) is st = request rs st \<and> quiet rs"
proof (induction "is" arbitrary: st)
  case Nil
  show ?case by (rule exI [of _ "[]"]) simp
next
  case (Cons i "is")
  obtain r1 where r1: "draw_colorbox xs (Some i) st = request r1 st" "quiet r1"
    using draw_colorbox_request by blast
  obtain r2 where r2: "fold (\<lambda>i. draw_colorbox xs (Some i)) is (request r1 st) = request r2 (request r1 st)" "quiet r2"
    using Cons.IH by blast
  show ?case
    by (rule exI [of _ "r1 @ r2"]) (simp add: r1 r2)
qed

lemma draw_all_boxes_request: "\<exists>rs. draw_all_boxes xs st = request rs st \<and> quiet rs"
  unfolding draw_all_boxes_def by (rule draw_fold_request)

lemma quiet_draw_menu_item: "quiet (draw_menu_item xs mw fmt hover i)"
  by (simp add: draw_menu_item_def Let_def)

lemma quiet_concat: "(\<And>x. x \<in> set xss \<Longrightarrow> quiet x) \<Longrightarrow> quiet (concat xss)"
  by (induction xss) simp_all

lemma quiet_draw_context_menu [simp]: "quiet (draw_context_menu xs mw fmt hover)"
  unfolding draw_context_menu_def
  by (auto intro!: quiet_concat simp: quiet_draw_menu_item)

lemma menu_loop_quiet:
  "menu_loop xs mw fmt hover out q = Some (sel, out', q') \<Longrightarrow> quiet out \<Longrightarrow> quiet out'"
proof (induction q arbitrary: hover out)
  case Nil
  then show ?case by simp
next
  case (Cons ev q)
  show ?case
  proof (cases "event_window ev \<noteq> mw")
    case True
    with Cons show ?thesis by (auto split: if_splits)
  next
    case False
    with Cons.prems Cons.IH show ?thesis
      by (cases ev) (auto simp: Let_def split: if_splits)
  qed
qed

lemma context_menu_show_request:
  assumes "context_menu_show xs x y q st = Some (sel, st', q')"
  shows "\<exists>rs. st' = request rs st \<and> quiet rs"
proof -
  from assms obtain out where
    loop: "menu_loop xs (created_window xs (xlog st)) (current_format st) (- 1) [] q
             = Some (sel, out, q')"
    by (auto simp: context_menu_show_def Let_def split: option.splits)
  have "quiet out"
    using menu_loop_quiet [OF loop] by simp
  with assms loop show ?thesis
    by (auto simp: context_menu_show_def Let_def intro!: request_exI)
qed



subsection \<open>The clipboard buffer\<close>

lemma takeWhile_length_le_nth:
  "i < length xs \<Longrightarrow> \<not> P (xs ! i) \<Longrightarrow> length (takeWhile P xs) \<le> i"
proof (induction xs arbitrary: i)
  case Nil
  then show ?case by simp
next
  case (Cons x xs)
  then show ?case by (cases i) auto
qed

lemma c_str_terminated:
  "i < length buf \<Longrightarrow> buf ! i = NUL \<Longrightarrow> length (c_str buf) \<le> i"
  unfolding c_str_def by (rule takeWhile_length_le_nth) simp_all

lemma takeWhile_take_stop:
  "takeWhile P (take n (takeWhile P xs @ replicate n z) @ [z]) = take n (takeWhile P xs)" if "\<not> P z"
proof -
  let ?t = "takeWhile P xs"
  have "take n (?t @ replicate n z) = take n ?t @ replicate (n - length ?t) z"
    by (simp add: min_def)
  moreover have "takeWhile P (take n ?t @ replicate (n - length ?t) z @ [z]) = take n ?t"
  proof -
    have "\<forall>x \<in> set (take n ?t). P x"
      by (meson in_set_takeD set_takeWhileD)
    moreover have "replicate (n - length ?t) z @ [z] = z # replicate (n - length ?t) z"
      by (simp add: replicate_append_same)
    ultimately show ?thesis using that
      by (simp add: takeWhile_append2)
  qed
  ultimately show ?thesis by simp
qed

lemma length_padded [simp]: "length (padded t n) = n"
  by (simp add: padded_def)

lemma c_str_padded: "c_str (padded t n @ [NUL]) = take n (c_str t)"
  unfolding c_str_def padded_def by (rule takeWhile_take_stop) simp

lemma strncpy_terminated:
  assumes "length dst = Suc n"
  shows "(strncpy dst src n)[n := NUL] = padded src n @ [NUL]"
proof -
  have "length (drop n dst) = 1"
    using assms by simp
  then obtain z where "drop n dst = [z]"
    by (cases "drop n dst") auto
  then have "strncpy dst src n = padded src n @ [z]"
    by (simp add: strncpy_def padded_def)
  then show ?thesis
    using list_update_length [of "padded src n" z "[]" NUL] by simp
qed

lemma set_clipboard_text:
  "length (clipboard_text st) = CLIPBOARD_BUFFER_SIZE \<Longrightarrow>
   clipboard_text (set_clipboard xs (Some t) st) = padded t (CLIPBOARD_BUFFER_SIZE - 1) @ [NUL]"
  using strncpy_terminated [of "clipboard_text st" 63 t]
  by (simp add: set_clipboard_def Let_def CLIPBOARD_BUFFER_SIZE_def request_def)

lemma set_clipboard_c_str:
  "length (clipboard_text st) = CLIPBOARD_BUFFER_SIZE \<Longrightarrow>
   c_str (clipboard_text (set_clipboard xs (Some t) st)) = take (CLIPBOARD_BUFFER_SIZE - 1) (c_str t)"
  by (simp only: set_clipboard_text c_str_padded)

text \<open>
  Claim C8. After every call of \<^verbatim>\<open>set_clipboard\<close> the buffer \<^verbatim>\<open>clipboard_text\<close> still has
  its 64 bytes, its last byte is NUL, and the string it holds has at most 63 characters;
  a text that is longer is cut to its first 63 characters, it is not rejected. (A call
  with a null pointer leaves the buffer as it was, so the buffer is assumed well formed
  before the call; it is at startup.)
\<close>

theorem set_clipboard_buffer:
  assumes "length (clipboard_text st) = CLIPBOARD_BUFFER_SIZE"
    and "clipboard_text st ! (CLIPBOARD_BUFFER_SIZE - 1) = NUL"
  shows "length (clipboard_text (set_clipboard xs text st)) = CLIPBOARD_BUFFER_SIZE \<and>
         clipboard_text (set_clipboard xs text st) ! (CLIPBOARD_BUFFER_SIZE - 1) = NUL \<and>
         length (c_str (clipboard_text (set_clipboard xs text st))) \<le> CLIPBOARD_BUFFER_SIZE - 1 \<and>
         (\<forall>t. text = Some t \<longrightarrow>
            c_str (clipboard_text (set_clipboard xs text st)) =
              take (CLIPBOARD_BUFFER_SIZE - 1) (c_str t))"
proof (cases "text")
  case None
  then have "set_clipboard xs text st = st"
    by (simp add: set_clipboard_def)
  then show ?thesis
    using assms None c_str_terminated [of 63 "clipboard_text st"]
    by (simp add: CLIPBOARD_BUFFER_SIZE_def)
next
  case (Some t)
  have buf: "clipboard_text (set_clipboard xs (Some t) st) = padded t (CLIPBOARD_BUFFER_SIZE - 1) @ [NUL]"
    using assms(1) by (rule set_clipboard_text)
  have len: "length (clipboard_text (set_clipboard xs (Some t) st)) = CLIPBOARD_BUFFER_SIZE"
    unfolding buf by (simp add: CLIPBOARD_BUFFER_SIZE_def)
  have nul: "clipboard_text (set_clipboard xs (Some t) st) ! (CLIPBOARD_BUFFER_SIZE - 1) = NUL"
    unfolding buf using nth_append_length [of "padded t (CLIPBOARD_BUFFER_SIZE - 1)" NUL "[]"] by simp
  have str: "c_str (clipboard_text (set_clipboard xs (Some t) st)) = take (CLIPBOARD_BUFFER_SIZE - 1) (c_str t)"
    using assms(1) by (rule set_clipboard_c_str)
  have "length (c_str (clipboard_text (set_clipboard xs (Some t) st))) \<le> CLIPBOARD_BUFFER_SIZE - 1"
    unfolding str by simp
  with len nul str Some show ?thesis
    by simp
qed

lemma demo_init_clipboard: "clipboard_text demo_init = replicate 64 NUL"
  by (simp add: demo_init_def main_init_def initialize_color_boxes_def Let_def CLIPBOARD_BUFFER_SIZE_def)

theorem set_clipboard_buffer_witness:
  "length (clipboard_text demo_init) = CLIPBOARD_BUFFER_SIZE \<and>
   clipboard_text demo_init ! (CLIPBOARD_BUFFER_SIZE - 1) = NUL \<and>
   length (clipboard_text (set_clipboard demo_server (Some (replicate 70 (CHR ''a''))) demo_init)) = 64 \<and>
   c_str (clipboard_text (set_clipboard demo_server (Some (replicate 70 (CHR ''a''))) demo_init))
     = replicate 63 (CHR ''a'')"
proof -
  have a: "length (clipboard_text demo_init) = CLIPBOARD_BUFFER_SIZE"
    by (simp add: demo_init_clipboard CLIPBOARD_BUFFER_SIZE_def)
  have b: "clipboard_text demo_init ! (CLIPBOARD_BUFFER_SIZE - 1) = NUL"
    by (simp add: demo_init_clipboard CLIPBOARD_BUFFER_SIZE_def)
  have c: "c_str (replicate 70 (CHR ''a'')) = replicate 70 (CHR ''a'')"
    by (simp add: c_str_def NUL_def takeWhile_eq_all_conv)
  show ?thesis
    using a b set_clipboard_buffer [OF a b, of demo_server "Some (replicate 70 (CHR ''a''))"]
    by (simp add: c CLIPBOARD_BUFFER_SIZE_def)
qed


text \<open>
  Claim C10. For every colour and every format the formatted text has fewer than 64
  characters (at most 32) whatever the size of the buffer, so neither \<^verbatim>\<open>snprintf\<close> into the
  64 bytes of \<^verbatim>\<open>copy_color_from_box\<close> nor \<^verbatim>\<open>strncpy\<close> in \<^verbatim>\<open>set_clipboard\<close> cuts it: the
  string left in \<^verbatim>\<open>clipboard_text\<close> is the whole text.
\<close>

theorem format_color_fits_clipboard:
  "length (format_color c f n) < CLIPBOARD_BUFFER_SIZE \<and>
   (CLIPBOARD_BUFFER_SIZE \<le> n \<longrightarrow> format_color c f n = format_color c f CLIPBOARD_BUFFER_SIZE) \<and>
   (length (clipboard_text st) = CLIPBOARD_BUFFER_SIZE \<longrightarrow>
      c_str (clipboard_text
               (set_clipboard xs (Some (format_color c f CLIPBOARD_BUFFER_SIZE)) st)) =
        format_color c f CLIPBOARD_BUFFER_SIZE)"
proof (intro conjI impI)
  have "length (format_color c f n) \<le> length (format_text c f)"
    unfolding format_color_snprintf by (rule length_snprintf)
  then show "length (format_color c f n) < CLIPBOARD_BUFFER_SIZE"
    using length_format_text [of c f] by (simp add: CLIPBOARD_BUFFER_SIZE_def)
next
  assume "CLIPBOARD_BUFFER_SIZE \<le> n"
  then show "format_color c f n = format_color c f CLIPBOARD_BUFFER_SIZE"
    by (simp add: format_color_fits CLIPBOARD_BUFFER_SIZE_def)
next
  assume len: "length (clipboard_text st) = CLIPBOARD_BUFFER_SIZE"
  let ?s = "format_color c f CLIPBOARD_BUFFER_SIZE"
  have s: "?s = format_text c f"
    by (simp add: format_color_fits CLIPBOARD_BUFFER_SIZE_def)
  have "c_str ?s = ?s"
    unfolding c_str_def using format_color_no_NUL [of c f CLIPBOARD_BUFFER_SIZE]
    by (auto simp: takeWhile_eq_all_conv)
  moreover have "take (CLIPBOARD_BUFFER_SIZE - 1) ?s = ?s"
    unfolding s using length_format_text [of c f] by (simp add: CLIPBOARD_BUFFER_SIZE_def)
  ultimately show "c_str (clipboard_text (set_clipboard xs (Some ?s) st)) = ?s"
    by (simp add: set_clipboard_c_str [OF len])
qed

theorem format_color_fits_clipboard_witness:
  "CLIPBOARD_BUFFER_SIZE \<le> 1000 \<and> length (clipboard_text demo_init) = CLIPBOARD_BUFFER_SIZE \<and>
   format_color 0xB48EAD FORMAT_VEC4 1000 = format_color 0xB48EAD FORMAT_VEC4 CLIPBOARD_BUFFER_SIZE \<and>
   c_str (clipboard_text
            (set_clipboard demo_server
               (Some (format_color 0xB48EAD FORMAT_VEC4 CLIPBOARD_BUFFER_SIZE)) demo_init)) =
     format_color 0xB48EAD FORMAT_VEC4 CLIPBOARD_BUFFER_SIZE"
  using format_color_fits_clipboard [of "0xB48EAD" FORMAT_VEC4 1000 demo_init demo_server]
  by (simp add: demo_init_clipboard CLIPBOARD_BUFFER_SIZE_def)

subsection \<open>Selection requests\<close>

text \<open>
  Claim C5. A request for \<^verbatim>\<open>TARGETS\<close> is answered with the list \<^verbatim>\<open>TARGETS\<close>, \<^verbatim>\<open>STRING\<close>,
  \<^verbatim>\<open>UTF8_STRING\<close>, \<^verbatim>\<open>COMPOUND_TEXT\<close>, in which nothing of the state occurs; a request for a
  target outside this list is answered with a notification whose property is \<^verbatim>\<open>None\<close>;
  and for every request the last thing sent is a notification to the requestor.
\<close>

theorem handle_selection_request_replies:
  "(req_target req = XInternAtom xs ''TARGETS'' \<longrightarrow>
      handle_selection_request xs req st =
        request [XChangeProperty (req_requestor req) (req_property req) XA_ATOM 32
                   (Atoms [XInternAtom xs ''TARGETS'', XA_STRING, XInternAtom xs ''UTF8_STRING'',
                           XInternAtom xs ''COMPOUND_TEXT'']),
                 XSendEvent (req_requestor req) (notify_of req)] st) \<and>
   (req_target req \<notin> {XInternAtom xs ''TARGETS'', XA_STRING, XInternAtom xs ''UTF8_STRING'',
                       XInternAtom xs ''COMPOUND_TEXT''} \<longrightarrow>
      handle_selection_request xs req st =
        request [XSendEvent (req_requestor req) ((notify_of req)\<lparr>property := None_atom\<rparr>)] st) \<and>
   (\<exists>n. last (xlog (handle_selection_request xs req st)) = XSendEvent (req_requestor req) n
      \<and> requestor n = req_requestor req \<and> selection n = req_selection req
      \<and> target n = req_target req \<and> time n = req_time req
      \<and> (property n = req_property req \<or> property n = None_atom))"
proof (intro conjI impI)
  assume "req_target req = XInternAtom xs ''TARGETS''"
  then show "handle_selection_request xs req st =
        request [XChangeProperty (req_requestor req) (req_property req) XA_ATOM 32
                   (Atoms [XInternAtom xs ''TARGETS'', XA_STRING, XInternAtom xs ''UTF8_STRING'',
                           XInternAtom xs ''COMPOUND_TEXT'']),
                 XSendEvent (req_requestor req) (notify_of req)] st"
    by (simp add: handle_selection_request_def Let_def supported_targets_def notify_of_def)
next
  assume "req_target req \<notin> {XInternAtom xs ''TARGETS'', XA_STRING, XInternAtom xs ''UTF8_STRING'',
                       XInternAtom xs ''COMPOUND_TEXT''}"
  then show "handle_selection_request xs req st =
        request [XSendEvent (req_requestor req) ((notify_of req)\<lparr>property := None_atom\<rparr>)] st"
    by (simp add: handle_selection_request_def Let_def notify_of_def)
next
  show "\<exists>n. last (xlog (handle_selection_request xs req st)) = XSendEvent (req_requestor req) n
      \<and> requestor n = req_requestor req \<and> selection n = req_selection req
      \<and> target n = req_target req \<and> time n = req_time req
      \<and> (property n = req_property req \<or> property n = None_atom)"
    by (simp add: handle_selection_request_def Let_def)
qed

theorem handle_selection_request_replies_witness:
  "handle_selection_request demo_server
     \<lparr>req_owner = 7, req_requestor = 9, req_selection = 300, req_target = 303, req_property = 40, req_time = 0\<rparr> demo_init
   = request [XChangeProperty 9 40 4 32 (Atoms [303, 31, 301, 302]),
              XSendEvent 9 \<lparr>requestor = 9, selection = 300, target = 303, property = 40, time = 0\<rparr>] demo_init
  \<and> handle_selection_request demo_server
     \<lparr>req_owner = 7, req_requestor = 9, req_selection = 300, req_target = 77, req_property = 40, req_time = 0\<rparr> demo_init
   = request [XSendEvent 9 \<lparr>requestor = 9, selection = 300, target = 77, property = 0, time = 0\<rparr>] demo_init"
  using handle_selection_request_replies [of "\<lparr>req_owner = 7, req_requestor = 9, req_selection = 300, req_target = 303, req_property = 40, req_time = 0\<rparr>" demo_server demo_init]
    handle_selection_request_replies [of "\<lparr>req_owner = 7, req_requestor = 9, req_selection = 300, req_target = 77, req_property = 40, req_time = 0\<rparr>" demo_server demo_init]
  by (simp add: demo_server_def demo_atom_def notify_of_def XA_ATOM_def XA_STRING_def None_atom_def)


subsection \<open>The popup menu\<close>

text \<open>
  Claim C3 (the program does not satisfy it). A button press on the menu window whose
  vertical offset is 160, the height of the menu, passes the test
  \<^verbatim>\<open>click_y > menu_height\<close> and selects row \<open>160 / 20 = 8\<close>, which is \<^verbatim>\<open>FORMAT_COUNT\<close> and
  not the index of a row.
\<close>

theorem context_menu_show_returns_FORMAT_COUNT:
  "\<exists>st'. context_menu_show xs x y
           (ButtonPress (created_window xs (xlog st)) button cx 160 # q) st =
         Some (FORMAT_COUNT, st', q)"
  by (simp add: context_menu_show_def Let_def menu_height_def MENU_ITEM_HEIGHT_def
      FORMAT_COUNT_def c_div_def)


subsection \<open>Frames of the handlers\<close>

lemma set_clipboard_frame [simp]:
  "color_boxes (set_clipboard xs t st) = color_boxes st"
  "last_clicked_box (set_clipboard xs t st) = last_clicked_box st"
  "current_format (set_clipboard xs t st) = current_format st"
  "rect_size (set_clipboard xs t st) = rect_size st"
  "exited (set_clipboard xs t st) = exited st"
  by (simp_all add: set_clipboard_def Let_def split: option.splits)

lemma set_clipboard_commit [simp]:
  "commit_count (set_clipboard xs (Some t) st) = Suc (commit_count st)"
  by (simp add: set_clipboard_def Let_def commit_count_def)

lemma copy_color_from_box_frame [simp]:
  "color_boxes (copy_color_from_box xs box st) = color_boxes st"
  "last_clicked_box (copy_color_from_box xs box st) = last_clicked_box st"
  "current_format (copy_color_from_box xs box st) = current_format st"
  "rect_size (copy_color_from_box xs box st) = rect_size st"
  "exited (copy_color_from_box xs box st) = exited st"
  by (simp_all add: copy_color_from_box_def split: option.splits)

lemma copy_color_from_box_commit [simp]:
  "commit_count (copy_color_from_box xs (Some i) st) = Suc (commit_count st)"
  by (simp add: copy_color_from_box_def)

lemma set_clipboard_formatted:
  assumes len: "length (clipboard_text st) = CLIPBOARD_BUFFER_SIZE"
  shows "c_str (clipboard_text
               (set_clipboard xs (Some (format_color c f CLIPBOARD_BUFFER_SIZE)) st)) =
        format_color c f CLIPBOARD_BUFFER_SIZE"
proof -
  let ?s = "format_color c f CLIPBOARD_BUFFER_SIZE"
  have s: "?s = format_text c f"
    by (simp add: format_color_fits CLIPBOARD_BUFFER_SIZE_def)
  have "c_str ?s = ?s"
    unfolding c_str_def using format_color_no_NUL [of c f CLIPBOARD_BUFFER_SIZE]
    by (auto simp: takeWhile_eq_all_conv)
  moreover have "take (CLIPBOARD_BUFFER_SIZE - 1) ?s = ?s"
    unfolding s using length_format_text [of c f] by (simp add: CLIPBOARD_BUFFER_SIZE_def)
  ultimately show ?thesis
    by (simp add: set_clipboard_c_str [OF len])
qed

lemma copy_color_from_box_c_str:
  assumes "length (clipboard_text st) = CLIPBOARD_BUFFER_SIZE"
  shows "c_str (clipboard_text (copy_color_from_box xs (Some i) st)) =
         format_color (color (color_boxes st ! i)) (current_format st) CLIPBOARD_BUFFER_SIZE"
  using set_clipboard_formatted [OF assms] by (simp add: copy_color_from_box_def)

lemma draw_colorbox_frame [simp]:
  "color_boxes (draw_colorbox xs box st) = color_boxes st"
  "last_clicked_box (draw_colorbox xs box st) = last_clicked_box st"
  "current_format (draw_colorbox xs box st) = current_format st"
  "rect_size (draw_colorbox xs box st) = rect_size st"
  "exited (draw_colorbox xs box st) = exited st"
  "clipboard_text (draw_colorbox xs box st) = clipboard_text st"
  "commit_count (draw_colorbox xs box st) = commit_count st"
  using draw_colorbox_request [of xs box st] by (auto simp: quiet_def)

lemma draw_all_boxes_frame [simp]:
  "color_boxes (draw_all_boxes xs st) = color_boxes st"
  "last_clicked_box (draw_all_boxes xs st) = last_clicked_box st"
  "rect_size (draw_all_boxes xs st) = rect_size st"
  using draw_all_boxes_request [of xs st] by auto

lemma last_clicked_simps [simp]:
  "color_boxes (set_last_clicked_box b st) = color_boxes st"
  "last_clicked_box (set_last_clicked_box b st) = b"
  "rect_size (set_last_clicked_box b st) = rect_size st"
  "commit_count (set_last_clicked_box b st) = commit_count st"
  "clipboard_text (set_last_clicked_box b st) = clipboard_text st"
  "current_format (set_last_clicked_box b st) = current_format st"
  "color_boxes (clear_last_clicked_box st) = color_boxes st"
  "last_clicked_box (clear_last_clicked_box st) = None"
  "rect_size (clear_last_clicked_box st) = rect_size st"
  "commit_count (clear_last_clicked_box st) = commit_count st"
  "clipboard_text (clear_last_clicked_box st) = clipboard_text st"
  "current_format (clear_last_clicked_box st) = current_format st"
  "get_last_clicked_box st = last_clicked_box st"
  by (simp_all add: set_last_clicked_box_def clear_last_clicked_box_def get_last_clicked_box_def
      commit_count_def)

lemma colorbox_on_release_simps [simp]:
  "color_boxes (colorbox_on_release (Some i) st) =
     (color_boxes st)[i := (color_boxes st ! i)\<lparr>is_clicked := False\<rparr>]"
  "last_clicked_box (colorbox_on_release b st) = last_clicked_box st"
  "rect_size (colorbox_on_release b st) = rect_size st"
  "commit_count (colorbox_on_release b st) = commit_count st"
  "clipboard_text (colorbox_on_release b st) = clipboard_text st"
  "current_format (colorbox_on_release b st) = current_format st"
  by (simp_all add: colorbox_on_release_def commit_count_def split: option.splits)

lemma commit_count_update [simp]:
  "commit_count (st\<lparr>color_boxes := bs\<rparr>) = commit_count st"
  "commit_count (st\<lparr>current_format := f\<rparr>) = commit_count st"
  "commit_count (st\<lparr>exited := e\<rparr>) = commit_count st"
  by (simp_all add: commit_count_def)

subsection \<open>Hit testing\<close>

lemma find_box_from_Some:
  "find_box_from st px py is = Some i \<Longrightarrow> i \<in> set is \<and> is_point_inside_box st px py (Some i)"
  by (induction "is") (auto split: if_splits)

lemma find_box_less: "find_box st px py = Some i \<Longrightarrow> i < PALETTE_LENGTH"
  unfolding find_box_def using find_box_from_Some [of st px py "[0..<PALETTE_LENGTH]" i] by simp

lemma same_geometry_inside:
  assumes "same_geometry st st'" "i < length (color_boxes st)"
  shows "is_point_inside_box st' px py (Some i) = is_point_inside_box st px py (Some i)"
proof -
  let ?f = "\<lambda>b. (box_x b, box_y b)"
  have m: "map ?f (color_boxes st') = map ?f (color_boxes st)" and r: "rect_size st' = rect_size st"
    using assms(1) by (simp_all add: same_geometry_def)
  have len: "length (color_boxes st') = length (color_boxes st)"
    using m by (rule map_eq_imp_length_eq)
  have "?f (color_boxes st' ! i) = map ?f (color_boxes st') ! i"
    using assms(2) len by simp
  also have "\<dots> = ?f (color_boxes st ! i)"
    unfolding m using assms(2) by simp
  finally show ?thesis
    by (simp add: is_point_inside_box_def Let_def r)
qed

lemma same_geometry_find_box_from:
  assumes "same_geometry st st'" "\<forall>i \<in> set is. i < length (color_boxes st)"
  shows "find_box_from st' px py is = find_box_from st px py is"
  using assms(2) by (induction "is") (simp_all add: same_geometry_inside [OF assms(1)])

lemma same_geometry_find_box:
  assumes "same_geometry st st'" "length (color_boxes st) = PALETTE_LENGTH"
  shows "find_box st' px py = find_box st px py"
  unfolding find_box_def by (rule same_geometry_find_box_from [OF assms(1)]) (simp add: assms(2))

lemma map_update_same:
  assumes "f y = f (bs ! i)"
  shows "map f (bs[i := y]) = map f bs"
proof (cases "i < length bs")
  case True
  then show ?thesis using assms by (simp add: map_update list_update_same_conv)
next
  case False
  then have "length bs \<le> i" by simp
  then show ?thesis by (simp only: list_update_beyond)
qed

lemma same_geometry_flag:
  assumes "color_boxes st' = (color_boxes st)[i := (color_boxes st ! i)\<lparr>is_clicked := v\<rparr>]"
    and "rect_size st' = rect_size st"
  shows "same_geometry st st'"
  unfolding same_geometry_def assms by (simp add: map_update_same)


subsection \<open>The handlers of the mouse events\<close>

lemma handle_event_press:
  assumes "find_box st (word_of_int ex) (word_of_int ey) = Some i"
  shows "\<exists>st1. handle_event xs (ButtonPress w Button1 ex ey) q st = Some (st1, q) \<and>
     color_boxes st1 = (color_boxes st)[i := (color_boxes st ! i)\<lparr>is_clicked := True\<rparr>] \<and>
     last_clicked_box st1 = Some i \<and> rect_size st1 = rect_size st \<and>
     current_format st1 = current_format st \<and>
     commit_count st1 = Suc (commit_count st) \<and>
     clipboard_text st1 = clipboard_text (copy_color_from_box xs (Some i) st)"
  using assms by (simp add: handle_event_def Let_def)

lemma handle_event_release_hit:
  assumes "find_box st (word_of_int ex) (word_of_int ey) = Some i" "last_clicked_box st = Some i"
  shows "\<exists>st2. handle_event xs (ButtonRelease w button ex ey) q st = Some (st2, q) \<and>
     color_boxes st2 = (color_boxes st)[i := (color_boxes st ! i)\<lparr>is_clicked := False\<rparr>] \<and>
     last_clicked_box st2 = None \<and> rect_size st2 = rect_size st \<and>
     current_format st2 = current_format st \<and>
     commit_count st2 = commit_count st \<and> clipboard_text st2 = clipboard_text st"
  using assms by (simp add: handle_event_def Let_def)

lemma handle_event_release_miss:
  assumes "find_box st (word_of_int ex) (word_of_int ey) = None \<or>
           find_box st (word_of_int ex) (word_of_int ey) \<noteq> last_clicked_box st"
  shows "handle_event xs (ButtonRelease w button ex ey) q st = Some (st, q)"
  using assms by (auto simp: handle_event_def Let_def)

lemma handle_event_motion_off:
  assumes "last_clicked_box st = Some i" "find_box st (word_of_int ex) (word_of_int ey) \<noteq> Some i"
  shows "\<exists>st2. handle_event xs (MotionNotify w ex ey) q st = Some (st2, q) \<and>
     color_boxes st2 = (color_boxes st)[i := (color_boxes st ! i)\<lparr>is_clicked := False\<rparr>] \<and>
     last_clicked_box st2 = None \<and> rect_size st2 = rect_size st \<and>
     commit_count st2 = commit_count st \<and> clipboard_text st2 = clipboard_text st"
  using assms by (simp add: handle_event_def Let_def)

lemma handle_event_motion_on:
  assumes "last_clicked_box st = None \<or> find_box st (word_of_int ex) (word_of_int ey) = last_clicked_box st"
  shows "handle_event xs (MotionNotify w ex ey) q st = Some (st, q)"
  using assms by (auto simp: handle_event_def Let_def)

lemma handle_event_menu:
  assumes "find_box st (word_of_int ex) (word_of_int ey) = Some i"
    and "XTranslateCoordinates xs ex ey = (root_x, root_y)"
    and "context_menu_show xs root_x root_y q st = Some (chosen, st1, q')"
  shows "handle_event xs (ButtonPress w Button3 ex ey) q st =
         Some (if 0 \<le> chosen then copy_color_from_box xs (Some i) (st1\<lparr>current_format := chosen\<rparr>)
               else st1, q')"
  using assms by (simp add: handle_event_def Let_def Button1_def Button3_def)

lemma request_record_simps [simp]:
  "(request rs st)\<lparr>current_format := f\<rparr> = request rs (st\<lparr>current_format := f\<rparr>)"
  "(request rs st)\<lparr>exited := e\<rparr> = request rs (st\<lparr>exited := e\<rparr>)"
  by (simp_all add: request_def)

text \<open>Every event other than a left press, a release and a motion leaves the boxes and the
  tracked box as they are.\<close>

lemma handle_event_other:
  assumes "handle_event xs ev q st = Some (st', q')"
    and "\<And>w ex ey. ev \<noteq> ButtonPress w Button1 ex ey"
    and "\<And>w b ex ey. ev \<noteq> ButtonRelease w b ex ey"
    and "\<And>w ex ey. ev \<noteq> MotionNotify w ex ey"
  shows "color_boxes st' = color_boxes st \<and> last_clicked_box st' = last_clicked_box st"
proof (cases ev)
  case (Expose w n)
  with assms(1) show ?thesis by (auto simp: handle_event_def)
next
  case (ButtonPress w b ex ey)
  with assms(2) have b: "b \<noteq> Button1" by auto
  show ?thesis
  proof (cases "b = Button3")
    case False
    with b ButtonPress assms(1) show ?thesis by (simp add: handle_event_def)
  next
    case True
    show ?thesis
    proof (cases "find_box st (word_of_int ex) (word_of_int ey)")
      case None
      with True b ButtonPress assms(1) show ?thesis by (simp add: handle_event_def)
    next
      case (Some i)
      obtain rx ry where t: "XTranslateCoordinates xs ex ey = (rx, ry)" by (rule prod.exhaust)
      from assms(1) ButtonPress True b Some t obtain chosen st1 where
        m: "context_menu_show xs rx ry q st = Some (chosen, st1, q')"
        by (auto simp: handle_event_def split: option.splits if_splits)
      obtain rs where "st1 = request rs st"
        using context_menu_show_request [OF m] by blast
      with assms(1) ButtonPress True handle_event_menu [OF Some t m, of w] show ?thesis
        by (auto split: if_splits)
    qed
  qed
next
  case (ButtonRelease w b ex ey)
  with assms(3) show ?thesis by blast
next
  case (MotionNotify w ex ey)
  with assms(4) show ?thesis by blast
next
  case (LeaveNotify w)
  with assms(1) show ?thesis by (simp add: handle_event_def)
next
  case (SelectionRequest rq)
  with assms(1) show ?thesis
    by (auto simp: handle_event_def handle_selection_request_def Let_def)
next
  case (ClientMessage w d)
  with assms(1) show ?thesis
    by (auto simp: handle_event_def cleanup_dock_def split: if_splits)
next
  case (OtherEvent w)
  with assms(1) show ?thesis by (simp add: handle_event_def)
qed


subsection \<open>The concrete states\<close>

lemma demo_init_simps:
  "rect_size demo_init = 50"
  "last_clicked_box demo_init = None"
  "current_format demo_init = FORMAT_HTML_HEX"
  "xlog demo_init = []"
  "exited demo_init = False"
  "color_boxes demo_init =
     map (\<lambda>i. \<lparr>box_x = 5, box_y = 5 + of_nat i * 55, color = palette_colors ! i,
               label = palette_labels ! i, is_clicked = False\<rparr>) [0..<16]"
  by (simp_all add: demo_init_def main_init_def initialize_color_boxes_def Let_def
      demo_server_def main_rect_size_div PADDING_def PALETTE_LENGTH_def)

lemma demo_init_length: "length (color_boxes demo_init) = PALETTE_LENGTH"
  by (simp add: demo_init_simps PALETTE_LENGTH_def)

lemma demo_find_box_0: "find_box demo_init (word_of_int 10) (word_of_int 10) = Some 0"
  by (simp add: find_box_def PALETTE_LENGTH_def upt_conv_Cons is_point_inside_box_def
      demo_init_simps)

lemma demo_find_box_1: "find_box demo_init (word_of_int 10) (word_of_int 65) = Some 1"
  by (simp add: find_box_def PALETTE_LENGTH_def upt_conv_Cons is_point_inside_box_def
      demo_init_simps)

lemma demo_find_box_none: "find_box demo_init (word_of_int 0) (word_of_int 0) = None"
  by (simp add: find_box_def PALETTE_LENGTH_def upt_conv_Cons is_point_inside_box_def
      demo_init_simps)


subsection \<open>Press and release\<close>

text \<open>
  Claim C2, as the program has it. A left press that lands on a box performs one clipboard
  commit and marks the box pressed. A release that lands on the same box performs no commit,
  leaves the buffer as it is and clears the mark. A release that lands on no box changes
  nothing at all: no commit, and the box stays marked. A motion event that lands off the box,
  after the press, clears the mark, with no commit and the buffer left as it is.
\<close>

theorem press_commits_release_clears:
  assumes "length (color_boxes st) = PALETTE_LENGTH"
    and "find_box st (word_of_int ex) (word_of_int ey) = Some i"
  shows "\<exists>st1. handle_event xs (ButtonPress w Button1 ex ey) q st = Some (st1, q) \<and>
           commit_count st1 = commit_count st + 1 \<and>
           is_clicked (color_boxes st1 ! i) \<and>
           (find_box st (word_of_int rx) (word_of_int ry) = Some i \<longrightarrow>
              (\<exists>st2. handle_event xs (ButtonRelease w' button rx ry) q' st1 = Some (st2, q') \<and>
                     commit_count st2 = commit_count st1 \<and>
                     clipboard_text st2 = clipboard_text st1 \<and>
                     \<not> is_clicked (color_boxes st2 ! i))) \<and>
           (find_box st (word_of_int rx) (word_of_int ry) = None \<longrightarrow>
              handle_event xs (ButtonRelease w' button rx ry) q' st1 = Some (st1, q')) \<and>
           (find_box st (word_of_int mx) (word_of_int my) \<noteq> Some i \<longrightarrow>
              (\<exists>st2. handle_event xs (MotionNotify w'' mx my) q'' st1 = Some (st2, q'') \<and>
                     commit_count st2 = commit_count st1 \<and>
                     clipboard_text st2 = clipboard_text st1 \<and>
                     \<not> is_clicked (color_boxes st2 ! i)))"
proof -
  from handle_event_press [OF assms(2), of xs w q] obtain st1 where
    p: "handle_event xs (ButtonPress w Button1 ex ey) q st = Some (st1, q)"
    and b: "color_boxes st1 = (color_boxes st)[i := (color_boxes st ! i)\<lparr>is_clicked := True\<rparr>]"
    and l: "last_clicked_box st1 = Some i" and r: "rect_size st1 = rect_size st"
    and c: "commit_count st1 = Suc (commit_count st)"
    by blast
  have i: "i < length (color_boxes st)"
    using find_box_less [OF assms(2)] assms(1) by simp
  have g: "find_box st1 px py = find_box st px py" for px py
    using same_geometry_flag [OF b r] assms(1) by (rule same_geometry_find_box)
  have clicked: "is_clicked (color_boxes st1 ! i)"
    using i by (simp add: b)
  have hit: "\<exists>st2. handle_event xs (ButtonRelease w' button rx ry) q' st1 = Some (st2, q') \<and>
                     commit_count st2 = commit_count st1 \<and>
                     clipboard_text st2 = clipboard_text st1 \<and>
                     \<not> is_clicked (color_boxes st2 ! i)"
    if "find_box st (word_of_int rx) (word_of_int ry) = Some i"
  proof -
    have "find_box st1 (word_of_int rx) (word_of_int ry) = Some i" using that by (simp add: g)
    from handle_event_release_hit [OF this l, of xs w' button q'] obtain st2 where
      "handle_event xs (ButtonRelease w' button rx ry) q' st1 = Some (st2, q')"
      "color_boxes st2 = (color_boxes st1)[i := (color_boxes st1 ! i)\<lparr>is_clicked := False\<rparr>]"
      "commit_count st2 = commit_count st1" "clipboard_text st2 = clipboard_text st1"
      by blast
    then show ?thesis using i by (simp add: b)
  qed
  have miss: "handle_event xs (ButtonRelease w' button rx ry) q' st1 = Some (st1, q')"
    if "find_box st (word_of_int rx) (word_of_int ry) = None"
    by (rule handle_event_release_miss) (simp add: g that)
  have motion: "\<exists>st2. handle_event xs (MotionNotify w'' mx my) q'' st1 = Some (st2, q'') \<and>
                     commit_count st2 = commit_count st1 \<and>
                     clipboard_text st2 = clipboard_text st1 \<and>
                     \<not> is_clicked (color_boxes st2 ! i)"
    if "find_box st (word_of_int mx) (word_of_int my) \<noteq> Some i"
  proof -
    have "find_box st1 (word_of_int mx) (word_of_int my) \<noteq> Some i" using that by (simp add: g)
    from handle_event_motion_off [OF l this, of xs w'' q''] obtain st2 where
      "handle_event xs (MotionNotify w'' mx my) q'' st1 = Some (st2, q'')"
      "color_boxes st2 = (color_boxes st1)[i := (color_boxes st1 ! i)\<lparr>is_clicked := False\<rparr>]"
      "commit_count st2 = commit_count st1" "clipboard_text st2 = clipboard_text st1"
      by blast
    then show ?thesis using i by (simp add: b)
  qed
  from p c clicked hit miss motion show ?thesis by simp
qed

theorem press_commits_release_clears_witness:
  "length (color_boxes demo_init) = PALETTE_LENGTH \<and>
   find_box demo_init (word_of_int 10) (word_of_int 10) = Some 0 \<and>
   find_box demo_init (word_of_int 0) (word_of_int 0) = None \<and>
   find_box demo_init (word_of_int 0) (word_of_int 0) \<noteq> Some 0 \<and>
   (\<exists>st1. handle_event demo_server (ButtonPress 7 Button1 10 10) [] demo_init = Some (st1, []) \<and>
          commit_count st1 = 1 \<and> is_clicked (color_boxes st1 ! 0) \<and>
          (\<exists>st2. handle_event demo_server (ButtonRelease 7 Button1 10 10) [] st1 = Some (st2, []) \<and>
                 commit_count st2 = 1 \<and> \<not> is_clicked (color_boxes st2 ! 0)) \<and>
          handle_event demo_server (ButtonRelease 7 Button1 0 0) [] st1 = Some (st1, []) \<and>
          (\<exists>st2. handle_event demo_server (MotionNotify 7 0 0) [] st1 = Some (st2, []) \<and>
                 commit_count st2 = 1 \<and> \<not> is_clicked (color_boxes st2 ! 0)))"
proof -
  have c: "commit_count demo_init = 0"
    by (simp add: commit_count_def demo_init_simps)
  from press_commits_release_clears [OF demo_init_length demo_find_box_0,
      of demo_server 7 "[]" 10 10 7 Button1 "[]" 0 0 7 "[]"]
  obtain st1 where 1: "handle_event demo_server (ButtonPress 7 Button1 10 10) [] demo_init = Some (st1, [])"
    "commit_count st1 = 1" "is_clicked (color_boxes st1 ! 0)"
    "\<exists>st2. handle_event demo_server (ButtonRelease 7 Button1 10 10) [] st1 = Some (st2, []) \<and>
                 commit_count st2 = 1 \<and> \<not> is_clicked (color_boxes st2 ! 0)"
    by (auto simp: c demo_find_box_0 [simplified])
  from press_commits_release_clears [OF demo_init_length demo_find_box_0,
      of demo_server 7 "[]" 0 0 7 Button1 "[]" 0 0 7 "[]"] 1(1,2)
  have "handle_event demo_server (ButtonRelease 7 Button1 0 0) [] st1 = Some (st1, [])"
    "\<exists>st2. handle_event demo_server (MotionNotify 7 0 0) [] st1 = Some (st2, []) \<and>
                 commit_count st2 = 1 \<and> \<not> is_clicked (color_boxes st2 ! 0)"
    by (auto simp: demo_find_box_none [simplified])
  with 1 show ?thesis
    using demo_init_length demo_find_box_0 demo_find_box_none by auto
qed

text \<open>Claim C2 as stated does not hold: after the left click at \<open>(10, 10)\<close> on box 0, a
  release at \<open>(0, 0)\<close>, which is on no box, leaves box 0 pressed.\<close>

theorem release_off_box_keeps_pressed:
  "find_box demo_pressed (word_of_int 0) (word_of_int 0) = None \<and>
   is_clicked
     (color_boxes
        (fst (the (handle_event demo_server (ButtonRelease 7 Button1 0 0) [] demo_pressed))) ! 0)"
proof -
  from handle_event_press [OF demo_find_box_0, of demo_server 7 "[]"] obtain st1 where
    p: "handle_event demo_server (ButtonPress 7 Button1 10 10) [] demo_init = Some (st1, [])"
    and b: "color_boxes st1 = (color_boxes demo_init)[0 := (color_boxes demo_init ! 0)\<lparr>is_clicked := True\<rparr>]"
    and r: "rect_size st1 = rect_size demo_init"
    by blast
  have st1: "demo_pressed = st1" by (simp add: demo_pressed_def p)
  have g: "find_box st1 (word_of_int 0) (word_of_int 0) = None"
    using same_geometry_find_box [OF same_geometry_flag [OF b r] demo_init_length]
    by (simp add: demo_find_box_none [simplified])
  have "handle_event demo_server (ButtonRelease 7 Button1 0 0) [] st1 = Some (st1, [])"
    using g by (intro handle_event_release_miss disjI1)
  moreover have "is_clicked (color_boxes st1 ! 0)"
    using demo_init_length by (simp add: b PALETTE_LENGTH_def)
  ultimately show ?thesis using g by (simp add: st1)
qed

subsection \<open>A format chosen in the menu\<close>

lemma context_menu_show_row:
  assumes "0 \<le> cy" "cy \<le> 160"
  shows "\<exists>st1. context_menu_show xs x y
                 (ButtonPress (created_window xs (xlog st)) button cx cy # q) st =
               Some (cy div 20, st1, q)"
  using assms
  by (simp add: context_menu_show_def Let_def menu_height_def MENU_ITEM_HEIGHT_def
      FORMAT_COUNT_def c_div_def sgn_if)

text \<open>
  Claim C4. When the menu opened by a right press on a box returns \<open>chosen \<ge> 0\<close>, the
  current format becomes \<open>chosen\<close>, one clipboard commit is performed, and the buffer holds
  the colour of that box in the format \<open>chosen\<close>; when it returns a negative value, the
  format, the number of commits and the buffer are unchanged.
\<close>

theorem menu_selection_commits:
  assumes "find_box st (word_of_int ex) (word_of_int ey) = Some i"
    and "XTranslateCoordinates xs ex ey = (root_x, root_y)"
    and "context_menu_show xs root_x root_y q st = Some (chosen, st1, q')"
    and "length (clipboard_text st) = CLIPBOARD_BUFFER_SIZE"
  shows "\<exists>st'. handle_event xs (ButtonPress w Button3 ex ey) q st = Some (st', q') \<and>
      (0 \<le> chosen \<longrightarrow>
         current_format st' = chosen \<and> commit_count st' = commit_count st + 1 \<and>
         c_str (clipboard_text st') =
           format_color (color (color_boxes st ! i)) chosen CLIPBOARD_BUFFER_SIZE) \<and>
      (chosen < 0 \<longrightarrow>
         current_format st' = current_format st \<and> commit_count st' = commit_count st \<and>
         clipboard_text st' = clipboard_text st)"
proof -
  obtain rs where st1: "st1 = request rs st" and rs: "quiet rs"
    using context_menu_show_request [OF assms(3)] by blast
  note h = handle_event_menu [OF assms(1-3), of w]
  show ?thesis
  proof (cases "0 \<le> chosen")
    case True
    let ?st = "st1\<lparr>current_format := chosen\<rparr>"
    have len: "length (clipboard_text ?st) = CLIPBOARD_BUFFER_SIZE"
      using assms(4) by (simp add: st1)
    have "c_str (clipboard_text (copy_color_from_box xs (Some i) ?st)) =
          format_color (color (color_boxes st ! i)) chosen CLIPBOARD_BUFFER_SIZE"
      using copy_color_from_box_c_str [OF len, of xs i] by (simp add: st1)
    with True h rs show ?thesis by (simp add: st1 quiet_def)
  next
    case False
    with h rs show ?thesis by (simp add: st1 quiet_def)
  qed
qed

theorem menu_selection_commits_witness:
  "\<exists>st'. handle_event demo_server (ButtonPress 7 Button3 10 10)
            [ButtonPress 1000 Button1 10 45] demo_init = Some (st', []) \<and>
         current_format st' = FORMAT_CSS_RGB \<and> commit_count st' = 1 \<and>
         c_str (clipboard_text st') = ''rgb(46, 52, 64);''"
proof -
  have w: "created_window demo_server (xlog demo_init) = 1000"
    by (simp add: demo_server_def demo_init_simps)
  have t: "XTranslateCoordinates demo_server 10 10 = (1870, 67)"
    by (simp add: demo_server_def)
  from context_menu_show_row [of 45 demo_server 1870 67 demo_init Button1 10 "[]"]
  obtain st1 where m: "context_menu_show demo_server 1870 67 [ButtonPress 1000 Button1 10 45] demo_init
      = Some (2, st1, [])"
    by (auto simp: w)
  have len: "length (clipboard_text demo_init) = CLIPBOARD_BUFFER_SIZE"
    by (simp add: demo_init_clipboard CLIPBOARD_BUFFER_SIZE_def)
  have c: "commit_count demo_init = 0"
    by (simp add: commit_count_def demo_init_simps)
  have col: "color (color_boxes demo_init ! 0) = 0x2E3440"
    by (simp add: demo_init_simps palette_colors_def)
  have f: "format_color 0x2E3440 2 CLIPBOARD_BUFFER_SIZE = ''rgb(46, 52, 64);''"
    by code_simp
  from menu_selection_commits [OF demo_find_box_0 t m len, of 7] show ?thesis
    by (auto simp: c col f FORMAT_CSS_RGB_def)
qed

subsection \<open>Two pressed boxes\<close>

lemma handle_event_press_exited:
  assumes "find_box st (word_of_int ex) (word_of_int ey) = Some i"
    and "handle_event xs (ButtonPress w Button1 ex ey) q st = Some (st1, q1)"
  shows "exited st1 = exited st"
  using assms by (auto simp: handle_event_def Let_def set_last_clicked_box_def)

lemma main_loop_step:
  "\<not> exited st \<Longrightarrow> handle_event xs ev q st = Some (st', q') \<Longrightarrow>
   main_loop xs (Suc n) st (ev # q) = main_loop xs n st' q'"
  by simp

lemma menu_loop_outside:
  assumes "\<forall>e \<in> set pre. event_window e \<noteq> mw \<and> \<not> is_ButtonPress e"
    and "event_window p \<noteq> mw" "is_ButtonPress p"
  shows "menu_loop xs mw fmt hover out (pre @ p # rest) = Some (- 1, out, rest)"
  using assms(1) by (induction pre) (simp_all add: assms(2,3))

lemma context_menu_show_outside:
  assumes "\<forall>e \<in> set pre. event_window e \<noteq> created_window xs (xlog st) \<and> \<not> is_ButtonPress e"
    and "event_window p \<noteq> created_window xs (xlog st)" "is_ButtonPress p"
  shows "\<exists>st1. context_menu_show xs x y (pre @ p # rest) st = Some (- 1, st1, rest)"
  using menu_loop_outside [OF assms, of xs "current_format st" "- 1" "[]" rest]
  by (simp add: context_menu_show_def Let_def)

lemma handle_event_menu_closed:
  assumes "find_box st (word_of_int ex) (word_of_int ey) = Some i"
    and "context_menu_show xs (fst (XTranslateCoordinates xs ex ey))
           (snd (XTranslateCoordinates xs ex ey)) q st = Some (- 1, st1, q')"
  shows "handle_event xs (ButtonPress w Button3 ex ey) q st = Some (st1, q') \<and>
         color_boxes st1 = color_boxes st \<and> last_clicked_box st1 = last_clicked_box st \<and>
         rect_size st1 = rect_size st \<and> exited st1 = exited st"
proof -
  obtain rs where "st1 = request rs st"
    using context_menu_show_request [OF assms(2)] by blast
  moreover have "handle_event xs (ButtonPress w Button3 ex ey) q st = Some (st1, q')"
    using handle_event_menu [OF assms(1) _ assms(2), of w] by simp
  ultimately show ?thesis by simp
qed


lemma chorded_click_state:
  "\<exists>st3. color_boxes st3 =
        ((color_boxes demo_init)[0 := (color_boxes demo_init ! 0)\<lparr>is_clicked := True\<rparr>])
          [1 := (color_boxes demo_init ! 1)\<lparr>is_clicked := True\<rparr>] \<and>
      last_clicked_box st3 = Some 1 \<and> rect_size st3 = rect_size demo_init \<and> \<not> exited st3 \<and>
      (\<forall>n. main_loop demo_server (Suc (Suc (Suc (Suc n)))) demo_init (chorded_click @ tail) =
           main_loop demo_server n st3 tail)"
proof -
  let ?xs = demo_server
  let ?p0 = "ButtonPress 7 Button1 10 10" and ?m = "ButtonPress 7 Button3 10 10"
  let ?pre = "[ButtonRelease 7 Button3 10 10, ButtonRelease 7 Button1 10 10, MotionNotify 7 10 65]"
  let ?c = "ButtonPress 7 Button1 10 65"
  let ?r1 = "ButtonRelease 7 Button1 10 65" and ?p1 = "ButtonPress 7 Button1 10 65"
  let ?q3 = "?p1 # tail"
  let ?q2 = "?r1 # ?q3"
  let ?q1 = "?m # ?pre @ ?c # ?q2"
  have chord: "chorded_click @ tail = ?p0 # ?q1"
    by (simp add: chorded_click_def)
  have len: "length (color_boxes demo_init) = 16"
    using demo_init_length by (simp add: PALETTE_LENGTH_def)
  from handle_event_press [OF demo_find_box_0, of demo_server 7 ?q1] obtain st1 where
    h1: "handle_event ?xs ?p0 ?q1 demo_init = Some (st1, ?q1)"
    and b1: "color_boxes st1 = (color_boxes demo_init)[0 := (color_boxes demo_init ! 0)\<lparr>is_clicked := True\<rparr>]"
    and l1: "last_clicked_box st1 = Some 0" and r1: "rect_size st1 = rect_size demo_init"
    by blast
  have e0: "\<not> exited demo_init" by (simp add: demo_init_simps)
  have e1: "\<not> exited st1"
    using handle_event_press_exited [OF demo_find_box_0 h1] e0 by simp
  have g1: "find_box st1 px py = find_box demo_init px py" for px py
    using same_geometry_flag [OF b1 r1] demo_init_length by (rule same_geometry_find_box)
  have f1: "find_box st1 (word_of_int 10) (word_of_int 10) = Some 0"
    using demo_find_box_0 by (simp add: g1)
  have w: "created_window ?xs (xlog st1) \<noteq> 7"
    by (simp add: demo_server_def)
  have "\<exists>st2. context_menu_show ?xs (fst (XTranslateCoordinates ?xs 10 10))
           (snd (XTranslateCoordinates ?xs 10 10)) (?pre @ ?c # ?q2) st1 = Some (- 1, st2, ?q2)"
    using w by (intro context_menu_show_outside) auto
  then obtain st2 where m2: "context_menu_show ?xs (fst (XTranslateCoordinates ?xs 10 10))
           (snd (XTranslateCoordinates ?xs 10 10)) (?pre @ ?c # ?q2) st1 = Some (- 1, st2, ?q2)"
    by blast
  from handle_event_menu_closed [OF f1 m2, of 7] have
    h2: "handle_event ?xs ?m (?pre @ ?c # ?q2) st1 = Some (st2, ?q2)"
    and b2: "color_boxes st2 = color_boxes st1" and l2: "last_clicked_box st2 = Some 0"
    and r2: "rect_size st2 = rect_size demo_init" and e2: "\<not> exited st2"
    using l1 r1 e1 by simp_all
  have g2: "find_box st2 px py = find_box demo_init px py" for px py
  proof -
    have "same_geometry st1 st2" by (simp add: same_geometry_def b2 r2 r1)
    moreover have "length (color_boxes st1) = PALETTE_LENGTH"
      using demo_init_length by (simp add: b1)
    ultimately have "find_box st2 px py = find_box st1 px py" by (rule same_geometry_find_box)
    then show ?thesis by (simp add: g1)
  qed
  have f2: "find_box st2 (word_of_int 10) (word_of_int 65) = Some 1"
    using demo_find_box_1 by (simp add: g2)
  have h3: "handle_event ?xs ?r1 ?q3 st2 = Some (st2, ?q3)"
    by (rule handle_event_release_miss) (simp add: f2 [simplified] l2)
  from handle_event_press [OF f2, of demo_server 7 tail] obtain st3 where
    h4: "handle_event ?xs ?p1 tail st2 = Some (st3, tail)"
    and b3: "color_boxes st3 = (color_boxes st2)[1 := (color_boxes st2 ! 1)\<lparr>is_clicked := True\<rparr>]"
    and l3: "last_clicked_box st3 = Some 1" and r3: "rect_size st3 = rect_size st2"
    by blast
  have e3: "\<not> exited st3"
    using handle_event_press_exited [OF f2 h4] e2 by simp
  have "main_loop ?xs (Suc (Suc (Suc (Suc n)))) demo_init (chorded_click @ tail) =
        main_loop ?xs n st3 tail" for n
    unfolding chord
    by (simp only: main_loop_step [OF e0 h1] main_loop_step [OF e1 h2]
        main_loop_step [OF e2 h3] main_loop_step [OF e2 h4])
  moreover have "color_boxes st3 =
        ((color_boxes demo_init)[0 := (color_boxes demo_init ! 0)\<lparr>is_clicked := True\<rparr>])
          [1 := (color_boxes demo_init ! 1)\<lparr>is_clicked := True\<rparr>]"
    using len by (simp add: b3 b2 b1)
  ultimately show ?thesis
    using l3 r3 r2 e3 by auto
qed

text \<open>
  Claim C1 (the program does not satisfy it). The branch of \<^verbatim>\<open>handle_event\<close> for a left press
  marks the box under the pointer and makes it the tracked box without releasing the box
  tracked before, and the release and motion branches only ever release the tracked box. On
  a display 1000 pixels high, after the events of \<open>chorded_click\<close> the boxes 0 and 1 are both
  marked pressed; after the release of that press and a motion off the boxes, box 0 is still
  marked pressed while no box is tracked, so no later release or motion clears it.
\<close>

theorem chorded_click_two_boxes_pressed:
  "clicked_boxes (run demo_server demo_init chorded_click) = [0, 1] \<and>
   clicked_boxes (run demo_server demo_init
      (chorded_click @ [ButtonRelease 7 Button1 10 65, MotionNotify 7 10 200])) = [0] \<and>
   last_clicked_box (run demo_server demo_init
      (chorded_click @ [ButtonRelease 7 Button1 10 65, MotionNotify 7 10 200])) = None"
proof -
  let ?xs = demo_server
  let ?r = "ButtonRelease 7 Button1 10 65" and ?m = "MotionNotify 7 10 200"
  have len: "length (color_boxes demo_init) = 16"
    using demo_init_length by (simp add: PALETTE_LENGTH_def)
  from chorded_click_state [of "[]"] obtain st3 where
    b3: "color_boxes st3 =
        ((color_boxes demo_init)[0 := (color_boxes demo_init ! 0)\<lparr>is_clicked := True\<rparr>])
          [1 := (color_boxes demo_init ! 1)\<lparr>is_clicked := True\<rparr>]"
    and run3: "\<And>n. main_loop ?xs (Suc (Suc (Suc (Suc n)))) demo_init (chorded_click @ []) =
           main_loop ?xs n st3 []"
    by blast
  have "length chorded_click = Suc (Suc (Suc (Suc (Suc (Suc (Suc (Suc 0)))))))"
    by (simp add: chorded_click_def)
  then have "run ?xs demo_init chorded_click = main_loop ?xs (Suc (Suc (Suc (Suc 0)))) st3 []"
    using run3 [of "Suc (Suc (Suc (Suc 0)))"] by (simp add: run_def)
  then have 1: "run ?xs demo_init chorded_click = st3" by simp
  have c3: "clicked_boxes st3 = [0, 1]"
    by (simp add: clicked_boxes_def b3 demo_init_simps upt_conv_Cons)
  from chorded_click_state [of "[?r, ?m]"] obtain st3' where
    b3': "color_boxes st3' =
        ((color_boxes demo_init)[0 := (color_boxes demo_init ! 0)\<lparr>is_clicked := True\<rparr>])
          [1 := (color_boxes demo_init ! 1)\<lparr>is_clicked := True\<rparr>]"
    and l3': "last_clicked_box st3' = Some 1" and r3': "rect_size st3' = rect_size demo_init"
    and e3': "\<not> exited st3'"
    and run3': "\<And>n. main_loop ?xs (Suc (Suc (Suc (Suc n)))) demo_init (chorded_click @ [?r, ?m]) =
           main_loop ?xs n st3' [?r, ?m]"
    by blast
  have g3: "find_box st3' px py = find_box demo_init px py" for px py
  proof -
    have "same_geometry demo_init st3'"
      by (simp add: same_geometry_def b3' r3' map_update_same)
    then show ?thesis using demo_init_length by (rule same_geometry_find_box)
  qed
  have f3: "find_box st3' (word_of_int 10) (word_of_int 65) = Some 1"
    using demo_find_box_1 by (simp add: g3)
  from handle_event_release_hit [OF f3 l3', of demo_server 7 Button1 "[?m]"] obtain st4 where
    h5: "handle_event ?xs ?r [?m] st3' = Some (st4, [?m])"
    and b4: "color_boxes st4 = (color_boxes st3')[1 := (color_boxes st3' ! 1)\<lparr>is_clicked := False\<rparr>]"
    and l4: "last_clicked_box st4 = None"
    by blast
  have h6: "handle_event ?xs ?m [] st4 = Some (st4, [])"
    by (rule handle_event_motion_on) (simp add: l4)
  have e4: "\<not> exited st4"
    using h5 e3' f3 l3'
    by (auto simp: handle_event_def Let_def colorbox_on_release_def clear_last_clicked_box_def
        split: if_splits)
  have "length (chorded_click @ [?r, ?m]) =
      Suc (Suc (Suc (Suc (Suc (Suc (Suc (Suc (Suc (Suc 0)))))))))"
    by (simp add: chorded_click_def)
  then have "run ?xs demo_init (chorded_click @ [?r, ?m]) =
      main_loop ?xs (Suc (Suc (Suc (Suc (Suc (Suc 0)))))) st3' [?r, ?m]"
    using run3' [of "Suc (Suc (Suc (Suc (Suc (Suc 0)))))"] by (simp add: run_def)
  also have "\<dots> = st4"
    by (simp only: main_loop_step [OF e3' h5] main_loop_step [OF e4 h6]) simp
  finally have 2: "run ?xs demo_init (chorded_click @ [?r, ?m]) = st4" .
  have c4: "clicked_boxes st4 = [0]"
    by (simp add: clicked_boxes_def b4 b3' demo_init_simps upt_conv_Cons)
  from 1 2 c3 c4 l4 show ?thesis by simp
qed

text \<open>The press branch alone: two left presses in a row, at \<open>(10, 10)\<close> on box 0 and at
  \<open>(10, 65)\<close> on box 1, leave both boxes pressed.\<close>

lemma two_presses_in_a_row:
  "is_clicked (color_boxes (run demo_server demo_init
       [ButtonPress 7 Button1 10 10, ButtonPress 7 Button1 10 65]) ! 0) \<and>
   is_clicked (color_boxes (run demo_server demo_init
       [ButtonPress 7 Button1 10 10, ButtonPress 7 Button1 10 65]) ! 1)"
proof -
  let ?e2 = "ButtonPress 7 Button1 10 65"
  from handle_event_press [OF demo_find_box_0, of demo_server 7 "[?e2]"] obtain st1 where
    p1: "handle_event demo_server (ButtonPress 7 Button1 10 10) [?e2] demo_init = Some (st1, [?e2])"
    and b1: "color_boxes st1 = (color_boxes demo_init)[0 := (color_boxes demo_init ! 0)\<lparr>is_clicked := True\<rparr>]"
    and r1: "rect_size st1 = rect_size demo_init"
    by blast
  have "find_box st1 (word_of_int 10) (word_of_int 65) = Some 1"
    using same_geometry_find_box [OF same_geometry_flag [OF b1 r1] demo_init_length]
    by (simp add: demo_find_box_1 [simplified])
  from handle_event_press [OF this, of demo_server 7 "[]"] obtain st2 where
    p2: "handle_event demo_server ?e2 [] st1 = Some (st2, [])"
    and b2: "color_boxes st2 = (color_boxes st1)[1 := (color_boxes st1 ! 1)\<lparr>is_clicked := True\<rparr>]"
    by blast
  have e1: "\<not> exited st1"
    using handle_event_press_exited [OF demo_find_box_0 p1] by (simp add: demo_init_simps)
  have "run demo_server demo_init [ButtonPress 7 Button1 10 10, ?e2] = st2"
    using p1 p2 e1 by (simp add: run_def demo_init_simps)
  moreover have "is_clicked (color_boxes st2 ! 0)" "is_clicked (color_boxes st2 ! 1)"
    using demo_init_length by (simp_all add: b1 b2 PALETTE_LENGTH_def)
  ultimately show ?thesis by simp
qed

end
